theory Spec2Isabelle
  imports Main "HOL-Library.Word"
begin

unbundle bit_operations_syntax

section \<open>The buffering echo server of ex2/echo.c\<close>

text \<open>
  The program keeps two global arrays, \<open>clients\<close> and \<open>pollfds\<close>, of
  \<open>MAX_CONNECTIONS\<close> entries and a global flag \<open>throttle\<close>. Every client owns a
  byte array \<open>buf\<close> of \<open>BUFLEN\<close> bytes and three pointers into it. A pointer
  \<open>p\<close> of the C code is represented by the offset \<open>p - client->buf\<close>, a natural
  number; pointer equality is equality of offsets. The \<open>debug\<close> flag is a static that
  is never set, so the \<open>fprintf\<close> calls it guards are not part of the model.
\<close>

subsection \<open>Constants\<close>

definition MAX_CONNECTIONS :: nat where
  "MAX_CONNECTIONS = 256"

definition BUFLEN :: nat where
  "BUFLEN = 4096"

definition STATE_READING :: int where
  "STATE_READING = 0"

definition STATE_WRITING :: int where
  "STATE_WRITING = 1"

type_synonym byte = "8 word"

subsection \<open>Errors\<close>

text \<open>
  Three ways in which a function of the program does not return normally:
  \<open>Exit n\<close> is \<open>err\<close>/\<open>errx\<close> ending the process with status \<open>n\<close>;
  \<open>Out_of_bounds\<close> is a load or store through a pointer that lies outside the array
  it was derived from (undefined behaviour in C);
  \<open>Never_returns\<close> is the \<open>tls_close\<close> loop of \<open>closeconn\<close> being answered
  with a retry request for ever.
\<close>

datatype error = Exit nat | Out_of_bounds | Never_returns

subsection \<open>struct client\<close>

record client =
  state :: int
  readptr :: nat
  writeptr :: nat
  nextptr :: nat
  buf :: "nat \<Rightarrow> byte"
  ctx :: nat

definition client_init :: "client \<Rightarrow> nat \<Rightarrow> client" where
  "client_init client c =
     client\<lparr>readptr := 0, writeptr := 0, nextptr := 0,
            state := STATE_READING, ctx := c\<rparr>"

subsection \<open>client_consume\<close>

text \<open>
  The loop of \<open>client_consume\<close>: \<open>n\<close> counts the bytes consumed so far. The read
  pointer is incremented and nothing else is done to it.
\<close>

function consume_loop :: "client \<Rightarrow> nat \<Rightarrow> nat \<Rightarrow> client \<times> nat" where
  "consume_loop client len n =
     (if n < len then
        (if readptr client = nextptr client then (client, n)
         else consume_loop (client\<lparr>readptr := readptr client + 1\<rparr>) len (n + 1))
      else (client, n))"
  by pat_completeness auto
termination
  by (relation "measure (\<lambda>(client, len, n). len - n)") auto

declare consume_loop.simps [simp del]

definition client_consume :: "client \<Rightarrow> nat \<Rightarrow> client \<times> nat" where
  "client_consume client len = consume_loop client len 0"

subsection \<open>client_get\<close>

text \<open>
  The loop of \<open>client_get\<close>. \<open>np\<close> is the local \<open>nextptr\<close>, \<open>out\<close> the bytes
  stored through \<open>outbuf\<close> so far and \<open>n\<close> their count. The load \<open>*nextptr\<close> is
  outside the array when the offset is not below \<open>BUFLEN\<close>.
\<close>

function get_loop ::
  "client \<Rightarrow> nat \<Rightarrow> nat \<Rightarrow> byte list \<Rightarrow> nat \<Rightarrow> error + (client \<times> byte list \<times> nat)" where
  "get_loop client outlen np out n =
     (if n < outlen then
        (if np = writeptr client then Inr (client, out, n)
         else if BUFLEN \<le> np then Inl Out_of_bounds
         else
           (let np' = (if BUFLEN \<le> np + 1 then 0 else np + 1)
            in get_loop (client\<lparr>nextptr := np'\<rparr>) outlen np'
                 (out @ [buf client np]) (n + 1)))
      else Inr (client, out, n))"
  by pat_completeness auto
termination
  by (relation "measure (\<lambda>(client, outlen, np, out, n). outlen - n)") auto

declare get_loop.simps [simp del]

text \<open>The local \<open>nextptr\<close> starts at \<open>client->readptr\<close>.\<close>

definition client_get :: "client \<Rightarrow> nat \<Rightarrow> error + (client \<times> byte list \<times> nat)" where
  "client_get client outlen = get_loop client outlen (readptr client) [] 0"

subsection \<open>client_put\<close>

text \<open>
  The loop of \<open>client_put\<close>. \<open>np\<close> is the local \<open>nextptr\<close> and \<open>n\<close> the number
  of bytes taken from \<open>inbuf\<close>. The store \<open>*prevptr\<close> is outside the array when the
  offset is not below \<open>BUFLEN\<close>, the load \<open>*inbuf\<close> when \<open>inbuf\<close> has no
  \<open>n\<close>-th byte.
\<close>

function put_loop ::
  "client \<Rightarrow> byte list \<Rightarrow> nat \<Rightarrow> nat \<Rightarrow> nat \<Rightarrow> error + (client \<times> nat)" where
  "put_loop client inbuf inlen np n =
     (if n < inlen then
        (let prevptr = np;
             np' = (if BUFLEN \<le> np + 1 then 0 else np + 1)
         in if np' = readptr client then Inr (client, n)
            else if BUFLEN \<le> prevptr \<or> length inbuf \<le> n then Inl Out_of_bounds
            else put_loop
                   (client\<lparr>buf := (buf client)(prevptr := inbuf ! n), writeptr := np'\<rparr>)
                   inbuf inlen np' (n + 1))
      else Inr (client, n))"
  by pat_completeness auto
termination
  by (relation "measure (\<lambda>(client, inbuf, inlen, np, n). inlen - n)") auto

declare put_loop.simps [simp del]

definition client_put :: "client \<Rightarrow> byte list \<Rightarrow> nat \<Rightarrow> error + (client \<times> nat)" where
  "client_put client inbuf inlen = put_loop client inbuf inlen (writeptr client) 0"

subsection \<open>Readiness conditions and retry signals\<close>

text \<open>
  Modelled from the spec: the readiness conditions of \<open>poll.h\<close> (readable, writable,
  error, hangup, invalid descriptor) and the two retry-needed return values of
  \<open>tls.h\<close>; both headers are outside the repository. The values are the ones the
  headers give; the program only relies on the five conditions being distinct bits and
  on the retry signals being distinct negative numbers other than \<open>-1\<close>.
\<close>

definition POLLIN :: "16 word" where
  "POLLIN = 1"

definition POLLOUT :: "16 word" where
  "POLLOUT = 4"

definition POLLERR :: "16 word" where
  "POLLERR = 8"

definition POLLHUP :: "16 word" where
  "POLLHUP = 16"

definition POLLNVAL :: "16 word" where
  "POLLNVAL = 32"

definition TLS_WANT_POLLIN :: int where
  "TLS_WANT_POLLIN = - 2"

definition TLS_WANT_POLLOUT :: int where
  "TLS_WANT_POLLOUT = - 3"

subsection \<open>struct pollfd and the global state\<close>

record pollfd =
  fd :: int
  events :: "16 word"
  revents :: "16 word"

text \<open>
  The calls the program makes to its collaborators (the secure channel, the descriptor
  table, the diagnostic stream), in the order it makes them.
\<close>

datatype io =
    Tls_read nat
  | Tls_write nat "byte list"
  | Tls_close nat
  | Tls_free nat
  | Tls_accept_socket int
  | Accept
  | Close int
  | Warn string

text \<open>
  The arrays \<open>pollfds\<close> and \<open>clients\<close> are indexed by slot number; the program
  only uses indices below \<open>MAX_CONNECTIONS\<close>. A pointer \<open>&pollfds[i]\<close> or
  \<open>&clients[i]\<close> is the index \<open>i\<close>. \<open>trace\<close> records the calls made so far.
\<close>

record server =
  pollfds :: "nat \<Rightarrow> pollfd"
  clients :: "nat \<Rightarrow> client"
  throttle :: int
  trace :: "io list"

definition emit :: "io \<Rightarrow> server \<Rightarrow> server" where
  "emit x s = s\<lparr>trace := trace s @ [x]\<rparr>"

definition set_events :: "nat \<Rightarrow> 16 word \<Rightarrow> server \<Rightarrow> server" where
  "set_events i ev s = s\<lparr>pollfds := (pollfds s)(i := (pollfds s i)\<lparr>events := ev\<rparr>)\<rparr>"

definition set_client :: "nat \<Rightarrow> client \<Rightarrow> server \<Rightarrow> server" where
  "set_client i c s = s\<lparr>clients := (clients s)(i := c)\<rparr>"

subsection \<open>What the collaborators answer\<close>

text \<open>
  During one call of \<open>handle_client\<close> the secure channel is asked at most one
  \<open>tls_read\<close> or \<open>tls_write\<close>, whose return value is \<open>tls_ret\<close>; after a
  \<open>tls_read\<close> the local array \<open>buf\<close> holds \<open>scratch\<close>. \<open>close_rets\<close> are
  the successive return values of \<open>tls_close\<close>.
\<close>

record chan_env =
  tls_ret :: int
  scratch :: "byte list"
  close_rets :: "int list"

text \<open>
  During one accept: the descriptor returned by \<open>accept\<close>, the return value of
  \<open>tls_accept_socket\<close> and the context it stores in \<open>tls_cctx\<close>, and the return
  values of the two \<open>fcntl\<close> calls of \<open>newconn\<close>.
\<close>

record accept_env =
  accept_fd :: int
  tls_accept_ret :: int
  tls_cctx :: nat
  getfl_ret :: int
  setfl_ret :: int

subsection \<open>closeconn\<close>

text \<open>
  The \<open>do ... while\<close> loop around \<open>tls_close\<close>: the number of calls made until
  an answer is not a retry request, \<open>None\<close> when every answer is one.
\<close>

fun tls_close_loop :: "int list \<Rightarrow> nat option" where
  "tls_close_loop [] = None"
| "tls_close_loop (i # rest) =
     (if i = TLS_WANT_POLLIN \<or> i = TLS_WANT_POLLOUT
      then map_option Suc (tls_close_loop rest) else Some 1)"

definition closeconn :: "nat \<Rightarrow> chan_env \<Rightarrow> server \<Rightarrow> error + server" where
  "closeconn i e s =
     (case tls_close_loop (close_rets e) of
        None \<Rightarrow> Inl Never_returns
      | Some k \<Rightarrow>
          Inr (s\<lparr>pollfds := (pollfds s)(i := (pollfds s i)\<lparr>fd := - 1, revents := 0\<rparr>),
                 throttle := 0,
                 trace := trace s @ replicate k (Tls_close (ctx (clients s i)))
                            @ [Tls_free (ctx (clients s i)), Close (fd (pollfds s i))]\<rparr>))"

subsection \<open>newconn\<close>

definition newconn :: "pollfd \<Rightarrow> int \<Rightarrow> accept_env \<Rightarrow> error + pollfd" where
  "newconn pfd newfd e =
     (if getfl_ret e < 0 then Inl (Exit 1)
      else if setfl_ret e < 0 then Inl (Exit 1)
      else Inr (pfd\<lparr>fd := newfd, events := POLLIN OR POLLHUP, revents := 0\<rparr>))"

subsection \<open>handle_client\<close>

text \<open>The branch of \<open>handle_client\<close> for \<open>STATE_READING\<close> (lines 179 to 196).\<close>

definition handle_reading :: "nat \<Rightarrow> chan_env \<Rightarrow> server \<Rightarrow> error + server" where
  "handle_reading i e s =
     (let len = tls_ret e;
          s1 = emit (Tls_read (ctx (clients s i))) s
      in if len = TLS_WANT_POLLIN then Inr (set_events i (POLLIN OR POLLHUP) s1)
         else if len = TLS_WANT_POLLOUT then Inr (set_events i (POLLOUT OR POLLHUP) s1)
         else if len < 0 then Inr (emit (Warn ''tls_read'') s1)
         else if len = 0 then closeconn i e s1
         else
           (case client_put (clients s1 i) (scratch e) (nat len) of
              Inl x \<Rightarrow> Inl x
            | Inr (c', n) \<Rightarrow>
                if int n \<noteq> len
                then closeconn i e (emit (Warn ''client buffer failed'') (set_client i c' s1))
                else Inr (set_events i (POLLOUT OR POLLHUP)
                            (set_client i (c'\<lparr>state := STATE_WRITING\<rparr>) s1))))"

text \<open>The branch of \<open>handle_client\<close> for \<open>STATE_WRITING\<close> (lines 198 to 214).\<close>

definition handle_writing :: "nat \<Rightarrow> chan_env \<Rightarrow> server \<Rightarrow> error + server" where
  "handle_writing i e s =
     (case client_get (clients s i) BUFLEN of
        Inl x \<Rightarrow> Inl x
      | Inr (c', out, n) \<Rightarrow>
          (let len = int n;
               s1 = set_client i c' s;
               ret = (if len \<noteq> 0 then tls_ret e else 0);
               s2 = (if len \<noteq> 0 then
                       (let s1' = emit (Tls_write (ctx c') out) s1
                        in if ret = TLS_WANT_POLLIN then set_events i (POLLIN OR POLLHUP) s1'
                           else if ret = TLS_WANT_POLLOUT
                           then set_events i (POLLOUT OR POLLHUP) s1'
                           else if ret < 0 then emit (Warn ''tls_write'') s1'
                           else set_client i (fst (client_consume (clients s1' i) (nat ret))) s1')
                     else s1)
           in Inr (if ret = len
                   then set_events i (POLLIN OR POLLHUP)
                          (set_client i ((clients s2 i)\<lparr>state := STATE_READING\<rparr>) s2)
                   else s2)))"

definition handle_client :: "nat \<Rightarrow> chan_env \<Rightarrow> server \<Rightarrow> error + server" where
  "handle_client i e s =
     (if revents (pollfds s i) AND (POLLERR OR POLLNVAL) \<noteq> 0 then Inl (Exit 1)
      else if revents (pollfds s i) AND POLLHUP \<noteq> 0 then closeconn i e s
      else if revents (pollfds s i) AND events (pollfds s i) \<noteq> 0 then
        (if state (clients s i) = STATE_READING then handle_reading i e s
         else if state (clients s i) = STATE_WRITING then handle_writing i e s
         else Inr s)
      else Inr s)"

subsection \<open>The dispatcher of main\<close>

text \<open>Lines 276 to 279: what is asked of the listening socket before \<open>poll\<close>.\<close>

definition listen_interest :: "server \<Rightarrow> server" where
  "listen_interest s =
     (if throttle s = 0 then set_events 0 (POLLIN OR POLLHUP) s else set_events 0 0 s)"

text \<open>
  Lines 292 to 302, the body of the \<open>for\<close> loop once slot \<open>i\<close> was found free;
  \<open>newfd\<close> is the accepted descriptor.
\<close>

definition claim_slot :: "accept_env \<Rightarrow> int \<Rightarrow> nat \<Rightarrow> server \<Rightarrow> error + server" where
  "claim_slot e newfd i s =
     (let s1 = emit (Tls_accept_socket newfd) (s\<lparr>throttle := 0\<rparr>)
      in if tls_accept_ret e = - 1
         then Inr (emit (Close newfd) (emit (Warn ''tls accept failed'') s1))
         else
           (case newconn (pollfds s1 i) newfd e of
              Inl x \<Rightarrow> Inl x
            | Inr p \<Rightarrow>
                Inr (set_client i (client_init (clients s1 i) (tls_cctx e))
                       (s1\<lparr>pollfds := (pollfds s1)(i := p)\<rparr>))))"

text \<open>The \<open>for\<close> loop of lines 290 to 304, from index \<open>i\<close> on.\<close>

function accept_scan :: "accept_env \<Rightarrow> int \<Rightarrow> nat \<Rightarrow> server \<Rightarrow> error + server" where
  "accept_scan e newfd i s =
     (if 0 \<le> newfd \<and> i < MAX_CONNECTIONS then
        (if fd (pollfds s i) = - 1 then claim_slot e newfd i s
         else accept_scan e newfd (i + 1) s)
      else Inr s)"
  by pat_completeness auto
termination
  by (relation "measure (\<lambda>(e, newfd, i, s). MAX_CONNECTIONS - i)") auto

declare accept_scan.simps [simp del]

text \<open>Lines 283 to 305: the listening slot reported something.\<close>

definition accept_event :: "accept_env \<Rightarrow> server \<Rightarrow> error + server" where
  "accept_event e s =
     (if revents (pollfds s 0) \<noteq> 0
      then accept_scan e (accept_fd e) 1 ((emit Accept s)\<lparr>throttle := 1\<rparr>)
      else Inr s)"

section \<open>Vocabulary of the properties\<close>

subsection \<open>Positions on the ring\<close>

text \<open>
  The number of steps from offset \<open>a\<close> forward to offset \<open>b\<close> on a ring of
  \<open>BUFLEN\<close> positions.
\<close>

definition ring_dist :: "nat \<Rightarrow> nat \<Rightarrow> nat" where
  "ring_dist a b = (b + BUFLEN - a) mod BUFLEN"

text \<open>Bytes put in and not yet consumed; bytes that can still be put in.\<close>

definition ring_used :: "client \<Rightarrow> nat" where
  "ring_used c = ring_dist (readptr c) (writeptr c)"

definition ring_free :: "client \<Rightarrow> nat" where
  "ring_free c = ring_dist ((writeptr c + 1) mod BUFLEN) (readptr c)"

text \<open>The cursors that \<open>client_get\<close> and \<open>client_put\<close> compare lie in the array.\<close>

definition in_range :: "client \<Rightarrow> bool" where
  "in_range c = (readptr c < BUFLEN \<and> writeptr c < BUFLEN)"

text \<open>The array after the bytes \<open>xs\<close> were stored from offset \<open>w\<close> on, wrapping.\<close>

fun ring_store :: "(nat \<Rightarrow> byte) \<Rightarrow> nat \<Rightarrow> byte list \<Rightarrow> nat \<Rightarrow> byte" where
  "ring_store b w [] = b"
| "ring_store b w (x # xs) = ring_store (b(w := x)) ((w + 1) mod BUFLEN) xs"

text \<open>The \<open>k\<close> bytes of the array from offset \<open>r\<close> on, wrapping.\<close>

definition ring_fetch :: "(nat \<Rightarrow> byte) \<Rightarrow> nat \<Rightarrow> nat \<Rightarrow> byte list" where
  "ring_fetch b r k = map (\<lambda>d. b ((r + d) mod BUFLEN)) [0..<k]"

subsection \<open>Sequences of buffer calls\<close>

datatype buf_op = Put "byte list" | Get nat | Consume nat

text \<open>
  A sequence of calls on one client. The three components of the result are the client,
  the sum of the values returned by \<open>client_put\<close> and the sum of the values returned
  by \<open>client_consume\<close>.
\<close>

fun run_ops :: "buf_op list \<Rightarrow> client \<times> nat \<times> nat \<Rightarrow> error + (client \<times> nat \<times> nat)" where
  "run_ops [] acc = Inr acc"
| "run_ops (Put xs # ops) (c, p, q) =
     (case client_put c xs (length xs) of
        Inl x \<Rightarrow> Inl x
      | Inr (c', n) \<Rightarrow> run_ops ops (c', p + n, q))"
| "run_ops (Get m # ops) (c, p, q) =
     (case client_get c m of
        Inl x \<Rightarrow> Inl x
      | Inr (c', out, n) \<Rightarrow> run_ops ops (c', p, q))"
| "run_ops (Consume m # ops) (c, p, q) =
     (case client_consume c m of (c', n) \<Rightarrow> run_ops ops (c', p, q + n))"

text \<open>Two calls of \<open>client_get\<close> in a row: the bytes each of them copied.\<close>

definition get_twice :: "client \<Rightarrow> nat \<Rightarrow> error + (byte list \<times> byte list)" where
  "get_twice c m =
     (case client_get c m of
        Inl x \<Rightarrow> Inl x
      | Inr (c', out1, n1) \<Rightarrow>
          (case client_get c' m of
             Inl x \<Rightarrow> Inl x
           | Inr (c'', out2, n2) \<Rightarrow> Inr (out1, out2)))"

subsection \<open>Sequences of notifications\<close>

text \<open>What \<open>poll\<close> does to slot \<open>i\<close>: it stores the conditions it observed.\<close>

definition deliver :: "nat \<Rightarrow> 16 word \<Rightarrow> server \<Rightarrow> server" where
  "deliver i rv s = s\<lparr>pollfds := (pollfds s)(i := (pollfds s i)\<lparr>revents := rv\<rparr>)\<rparr>"

fun run_notifications ::
  "nat \<Rightarrow> (16 word \<times> chan_env) list \<Rightarrow> server \<Rightarrow> error + server" where
  "run_notifications i [] s = Inr s"
| "run_notifications i ((rv, e) # rest) s =
     (case handle_client i e (deliver i rv s) of
        Inl x \<Rightarrow> Inl x
      | Inr s' \<Rightarrow> run_notifications i rest s')"

text \<open>How often a secure channel was freed.\<close>

definition frees :: "io list \<Rightarrow> nat" where
  "frees tr = length (filter (\<lambda>x. case x of Tls_free c \<Rightarrow> True | _ \<Rightarrow> False) tr)"

subsection \<open>Concrete inputs\<close>

text \<open>A client in zero-initialised static storage, and one set up by \<open>client_init\<close>.\<close>

definition client0 :: client where
  "client0 = \<lparr>state = 0, readptr = 0, writeptr = 0, nextptr = 0, buf = (\<lambda>i. 0), ctx = 0\<rparr>"

definition fresh :: client where
  "fresh = client_init client0 7"

definition payload :: "nat \<Rightarrow> byte list" where
  "payload n = map of_nat [0..<n]"

text \<open>The client set up by \<open>client_init\<close> after the bytes 1, 2, 3 were put in.\<close>

definition abc :: client where
  "abc = fresh\<lparr>buf := ring_store (buf fresh) 0 [1, 2, 3], writeptr := 3\<rparr>"

text \<open>
  The client after 4095 bytes were put in, peeked and consumed and two more bytes were
  put in and peeked: the write and the peek pointer have wrapped, the read pointer
  stands at the last byte of the array.
\<close>

definition wrapped :: client where
  "wrapped =
     fresh\<lparr>buf := ring_store (ring_store (buf fresh) 0 (payload 4095)) 4095 (payload 2),
           writeptr := 1, nextptr := 1, readptr := 4095\<rparr>"

text \<open>
  The same client after \<open>client_consume\<close> was called for the two bytes peeked: the
  read pointer stands one byte behind the end of the array.
\<close>

definition strayed :: client where
  "strayed = wrapped\<lparr>readptr := 4097\<rparr>"

text \<open>
  The server after lines 254 to 258 and 273 of \<open>main\<close> (every slot free, then the
  listening descriptor 3 in slot 0), and the same server with a connection on
  descriptor 4 in slot 1.
\<close>

definition free_pfd :: pollfd where
  "free_pfd = \<lparr>fd = - 1, events = POLLIN OR POLLHUP, revents = 0\<rparr>"

definition server0 :: server where
  "server0 =
     \<lparr>pollfds = (\<lambda>i. free_pfd)(0 := free_pfd\<lparr>fd := 3\<rparr>),
      clients = (\<lambda>i. client0),
      throttle = 0,
      trace = []\<rparr>"

definition server1 :: server where
  "server1 =
     server0\<lparr>pollfds := (pollfds server0)(1 := free_pfd\<lparr>fd := 4\<rparr>),
             clients := (clients server0)(1 := fresh)\<rparr>"

text \<open>
  The connection of \<open>server1\<close> in state \<open>STATE_WRITING\<close> with nothing buffered,
  notified that its descriptor is writable.
\<close>

definition server_w :: server where
  "server_w =
     server1\<lparr>pollfds := (pollfds server1)
                           (1 := \<lparr>fd = 4, events = POLLOUT OR POLLHUP, revents = POLLOUT\<rparr>),
             clients := (clients server1)(1 := fresh\<lparr>state := STATE_WRITING\<rparr>)\<rparr>"

text \<open>
  The connection of \<open>server1\<close> notified that its descriptor is readable, with an
  error condition, and the same connection in state \<open>STATE_WRITING\<close> with the bytes
  1, 2, 3 buffered and notified that its descriptor is writable.
\<close>

definition server_in :: server where
  "server_in = deliver 1 POLLIN server1"

definition server_err :: server where
  "server_err = deliver 1 POLLERR server1"

definition server_abc :: server where
  "server_abc =
     server1\<lparr>pollfds := (pollfds server1)
                           (1 := \<lparr>fd = 4, events = POLLOUT OR POLLHUP, revents = POLLOUT\<rparr>),
             clients := (clients server1)(1 := abc\<lparr>state := STATE_WRITING\<rparr>)\<rparr>"

text \<open>
  The secure channel answers 0 to whatever it is asked, and it answers with the error
  value \<open>-1\<close>.
\<close>

definition quiet :: chan_env where
  "quiet = \<lparr>tls_ret = 0, scratch = [], close_rets = [0]\<rparr>"

definition failing :: chan_env where
  "failing = \<lparr>tls_ret = - 1, scratch = [], close_rets = [0]\<rparr>"

text \<open>
  The secure channel delivers the five bytes of "hello", delivers a full chunk of
  \<open>BUFLEN\<close> bytes, and confirms that \<open>k\<close> bytes were written.
\<close>

definition hello :: chan_env where
  "hello = \<lparr>tls_ret = 5, scratch = [104, 101, 108, 108, 111], close_rets = [0]\<rparr>"

definition full_chunk :: chan_env where
  "full_chunk = \<lparr>tls_ret = 4096, scratch = payload 4096, close_rets = [0]\<rparr>"

definition sent :: "nat \<Rightarrow> chan_env" where
  "sent k = \<lparr>tls_ret = int k, scratch = [], close_rets = [0]\<rparr>"

text \<open>A negative return value that is not a retry-needed signal.\<close>

definition hard_error :: "int \<Rightarrow> bool" where
  "hard_error r = (r < 0 \<and> r \<noteq> TLS_WANT_POLLIN \<and> r \<noteq> TLS_WANT_POLLOUT)"

text \<open>
  The server with one connection when its listening socket is reported readable, and a
  server whose slots are all taken in the same situation.
\<close>

definition server_listen :: server where
  "server_listen = deliver 0 POLLIN server1"

definition server_full :: server where
  "server_full =
     \<lparr>pollfds = (\<lambda>i. \<lparr>fd = int i + 3, events = POLLIN OR POLLHUP, revents = 0\<rparr>)
                  (0 := \<lparr>fd = 3, events = POLLIN OR POLLHUP, revents = POLLIN\<rparr>),
      clients = (\<lambda>i. fresh),
      throttle = 0,
      trace = []\<rparr>"

text \<open>
  An accept that succeeds with descriptor 9 and a handshake that succeeds; the same with
  a handshake that fails; an accept that fails.
\<close>

definition accepted :: accept_env where
  "accepted = \<lparr>accept_fd = 9, tls_accept_ret = 0, tls_cctx = 8, getfl_ret = 2, setfl_ret = 0\<rparr>"

definition handshake_fails :: accept_env where
  "handshake_fails = accepted\<lparr>tls_accept_ret := - 1\<rparr>"

definition accept_fails :: accept_env where
  "accept_fails = accepted\<lparr>accept_fd := - 1\<rparr>"

text \<open>
  The server after a failed accept, and the same server when its connection in slot 1
  is reported hung up.
\<close>

definition server_throttled :: server where
  "server_throttled = (emit Accept server_listen)\<lparr>throttle := 1\<rparr>"

definition server_hup :: server where
  "server_hup = deliver 1 POLLHUP server_throttled"

definition server_closed :: server where
  "server_closed =
     server_hup\<lparr>pollfds := (pollfds server_hup)
                               (1 := (pollfds server_hup 1)\<lparr>fd := - 1, revents := 0\<rparr>),
                throttle := 0,
                trace := trace server_hup @ [Tls_close 7, Tls_free 7, Close 4]\<rparr>"

text \<open>The first free connection slot, if there is one.\<close>

definition first_free :: "server \<Rightarrow> nat option" where
  "first_free s = find (\<lambda>k. fd (pollfds s k) = - 1) [1..<MAX_CONNECTIONS]"

text \<open>Observations on one slot.\<close>

definition slot_state :: "nat \<Rightarrow> server \<Rightarrow> int" where
  "slot_state i s = state (clients s i)"

definition slot_fd :: "nat \<Rightarrow> server \<Rightarrow> int" where
  "slot_fd i s = fd (pollfds s i)"

definition slot_events :: "nat \<Rightarrow> server \<Rightarrow> 16 word" where
  "slot_events i s = events (pollfds s i)"

definition clients_at :: "nat \<Rightarrow> server \<Rightarrow> client" where
  "clients_at i s = clients s i"

section \<open>The three loops in closed form\<close>

lemma BUFLEN_pos: "0 < BUFLEN"
  by (simp add: BUFLEN_def)

lemma ring_dist_same: "ring_dist a a = 0"
  by (simp add: ring_dist_def)

lemma ring_dist_cases:
  "a < BUFLEN \<Longrightarrow> b < BUFLEN \<Longrightarrow> ring_dist a b = (if a \<le> b then b - a else b + BUFLEN - a)"
  by (simp add: ring_dist_def mod_if)

lemma ring_dist_pos: "a < BUFLEN \<Longrightarrow> b < BUFLEN \<Longrightarrow> a \<noteq> b \<Longrightarrow> 0 < ring_dist a b"
  by (simp add: ring_dist_cases)

lemma ring_dist_less: "ring_dist a b < BUFLEN"
  by (simp add: ring_dist_def BUFLEN_pos)

lemma ring_dist_step:
  "a < BUFLEN \<Longrightarrow> b < BUFLEN \<Longrightarrow> a \<noteq> b \<Longrightarrow>
   ring_dist (if BUFLEN \<le> a + 1 then 0 else a + 1) b = ring_dist a b - 1"
  by (auto simp: ring_dist_cases)

lemma wrap_succ_mod: "a < BUFLEN \<Longrightarrow> (if BUFLEN \<le> a + 1 then 0 else a + 1) = (a + 1) mod BUFLEN"
  by (auto simp: mod_if)

lemma consume_loop_closed:
  "consume_loop c len n =
     (c\<lparr>readptr := readptr c +
          (if readptr c \<le> nextptr c then min (len - n) (nextptr c - readptr c) else len - n)\<rparr>,
      n + (if readptr c \<le> nextptr c then min (len - n) (nextptr c - readptr c) else len - n))"
proof (induction c len n rule: consume_loop.induct)
  case (1 c len n)
  show ?case
  proof (cases "n < len \<and> readptr c \<noteq> nextptr c")
    case True
    then show ?thesis
      using "1.IH" by (subst consume_loop.simps) (auto simp: min_def)
  next
    case False
    then show ?thesis
      by (subst consume_loop.simps) (auto simp: min_def)
  qed
qed

lemma client_consume_closed:
  "client_consume c len =
     (c\<lparr>readptr := readptr c +
          (if readptr c \<le> nextptr c then min len (nextptr c - readptr c) else len)\<rparr>,
      if readptr c \<le> nextptr c then min len (nextptr c - readptr c) else len)"
  by (simp add: client_consume_def consume_loop_closed)

lemma get_loop_closed:
  "np < BUFLEN \<Longrightarrow> writeptr c < BUFLEN \<Longrightarrow>
   get_loop c outlen np out n =
     Inr (if min (outlen - n) (ring_dist np (writeptr c)) = 0 then c
          else c\<lparr>nextptr := (np + min (outlen - n) (ring_dist np (writeptr c))) mod BUFLEN\<rparr>,
          out @ ring_fetch (buf c) np (min (outlen - n) (ring_dist np (writeptr c))),
          n + min (outlen - n) (ring_dist np (writeptr c)))"
proof (induction c outlen np out n rule: get_loop.induct)
  case (1 c outlen np out n)
  let ?w = "writeptr c"
  show ?case
  proof (cases "n < outlen \<and> np \<noteq> ?w")
    case False
    then show ?thesis
      by (subst get_loop.simps) (auto simp: ring_dist_same ring_fetch_def)
  next
    case True
    define np' where "np' = (if BUFLEN \<le> np + 1 then 0 else np + 1)"
    define c' where "c' = c\<lparr>nextptr := np'\<rparr>"
    define k where "k = min (outlen - n) (ring_dist np ?w)"
    define k' where "k' = min (outlen - (n + 1)) (ring_dist np' (writeptr c'))"
    have np'_lt: "np' < BUFLEN" using "1.prems" by (simp add: np'_def)
    have np'_mod: "np' = (np + 1) mod BUFLEN"
      unfolding np'_def using "1.prems"(1) by (rule wrap_succ_mod)
    have dpos: "0 < ring_dist np ?w" using True "1.prems" by (simp add: ring_dist_pos)
    have dstep: "ring_dist np' ?w = ring_dist np ?w - 1"
      unfolding np'_def by (rule ring_dist_step) (use True "1.prems" in auto)
    have kk: "k = Suc k'" using True dpos dstep by (auto simp: k_def k'_def c'_def min_def)
    have idx: "(np' + d) mod BUFLEN = (np + Suc d) mod BUFLEN" for d
      by (simp add: np'_mod mod_simps)
    have nb: "\<not> BUFLEN \<le> np" using "1.prems" by simp
    have IH: "get_loop c' outlen np' (out @ [buf c np]) (n + 1) =
       Inr (if k' = 0 then c' else c'\<lparr>nextptr := (np' + k') mod BUFLEN\<rparr>,
            (out @ [buf c np]) @ ring_fetch (buf c') np' k',
            n + 1 + k')"
      unfolding k'_def c'_def np'_def
      apply (rule "1.IH")
      using True "1.prems" np'_lt nb by (simp_all add: np'_def)
    have unf: "get_loop c outlen np out n = get_loop c' outlen np' (out @ [buf c np]) (n + 1)"
      using True "1.prems" by (subst get_loop.simps) (simp add: c'_def np'_def Let_def)
    have m: "ring_fetch (buf c) np (Suc k') = buf c np # ring_fetch (buf c) np' k'"
      using "1.prems"
      by (simp add: ring_fetch_def upt_conv_Cons map_Suc_upt[symmetric] idx del: upt_Suc)
    have fin: "(if k' = 0 then c' else c'\<lparr>nextptr := (np' + k') mod BUFLEN\<rparr>) =
               c\<lparr>nextptr := (np + Suc k') mod BUFLEN\<rparr>"
      using idx[of k'] np'_mod by (auto simp: c'_def)
    show ?thesis
      unfolding unf IH k_def[symmetric] kk
      by (simp add: m fin c'_def)
  qed
qed

lemma client_get_closed:
  assumes "in_range c"
  shows "client_get c outlen =
     Inr (if min outlen (ring_used c) = 0 then c
          else c\<lparr>nextptr := (readptr c + min outlen (ring_used c)) mod BUFLEN\<rparr>,
          ring_fetch (buf c) (readptr c) (min outlen (ring_used c)),
          min outlen (ring_used c))"
proof -
  from assms have r: "readptr c < BUFLEN" and w: "writeptr c < BUFLEN"
    by (simp_all add: in_range_def)
  show ?thesis
    unfolding client_get_def ring_used_def
    by (simp only: get_loop_closed[OF r w] diff_zero append_Nil add_0)
qed

lemma put_loop_closed:
  "np = writeptr c \<Longrightarrow> np < BUFLEN \<Longrightarrow> readptr c < BUFLEN \<Longrightarrow> inlen \<le> length inbuf \<Longrightarrow>
   put_loop c inbuf inlen np n =
     Inr (c\<lparr>buf := ring_store (buf c) np
                  (take (min (inlen - n) (ring_dist ((np + 1) mod BUFLEN) (readptr c))) (drop n inbuf)),
            writeptr := (np + min (inlen - n) (ring_dist ((np + 1) mod BUFLEN) (readptr c))) mod BUFLEN\<rparr>,
          n + min (inlen - n) (ring_dist ((np + 1) mod BUFLEN) (readptr c)))"
proof (induction c inbuf inlen np n rule: put_loop.induct)
  case (1 c inbuf inlen np n)
  let ?r = "readptr c"
  define np' where "np' = (if BUFLEN \<le> np + 1 then 0 else np + 1)"
  have np'_lt: "np' < BUFLEN" using "1.prems" by (simp add: np'_def)
  have np'_mod: "np' = (np + 1) mod BUFLEN"
    unfolding np'_def using "1.prems"(2) by (rule wrap_succ_mod)
  define k where "k = min (inlen - n) (ring_dist np' ?r)"
  show ?case
  proof (cases "n < inlen \<and> np' \<noteq> ?r")
    case False
    then have k0: "k = 0" by (auto simp: k_def ring_dist_same)
    have "put_loop c inbuf inlen np n = Inr (c, n)"
      using False by (subst put_loop.simps) (auto simp: np'_def Let_def)
    moreover have "c\<lparr>buf := ring_store (buf c) np (take k (drop n inbuf)),
                     writeptr := (np + k) mod BUFLEN\<rparr> = c"
      using "1.prems" by (simp add: k0)
    ultimately show ?thesis
      unfolding np'_mod[symmetric] k_def[symmetric] by (simp add: k0)
  next
    case True
    define c' where "c' = c\<lparr>buf := (buf c)(np := inbuf ! n), writeptr := np'\<rparr>"
    define k' where "k' = min (inlen - (n + 1)) (ring_dist ((np' + 1) mod BUFLEN) (readptr c'))"
    have dpos: "0 < ring_dist np' ?r" using True "1.prems" np'_lt by (simp add: ring_dist_pos)
    have dstep: "ring_dist ((np' + 1) mod BUFLEN) ?r = ring_dist np' ?r - 1"
      unfolding wrap_succ_mod[OF np'_lt, symmetric]
      by (rule ring_dist_step) (use True "1.prems" np'_lt in auto)
    have kk: "k = Suc k'" using True dpos dstep by (auto simp: k_def k'_def c'_def min_def)
    have nlen: "n < length inbuf" using True "1.prems" by simp
    have unf: "put_loop c inbuf inlen np n = put_loop c' inbuf inlen np' (n + 1)"
      using True "1.prems" nlen
      by (subst put_loop.simps) (simp add: c'_def np'_def Let_def)
    have IH: "put_loop c' inbuf inlen np' (n + 1) =
       Inr (c'\<lparr>buf := ring_store (buf c') np' (take k' (drop (n + 1) inbuf)),
               writeptr := (np' + k') mod BUFLEN\<rparr>, n + 1 + k')"
      unfolding k'_def c'_def np'_def
      apply (rule "1.IH")
      using True "1.prems" np'_lt nlen by (simp_all add: np'_def)
    have tk: "take (Suc k') (drop n inbuf) = inbuf ! n # take k' (drop (n + 1) inbuf)"
      using nlen by (simp add: Cons_nth_drop_Suc[symmetric])
    have idx: "(np' + k') mod BUFLEN = (np + Suc k') mod BUFLEN"
      by (simp add: np'_mod mod_simps)
    show ?thesis
      unfolding unf IH np'_mod[symmetric] k_def[symmetric] kk tk
      using idx by (simp add: c'_def np'_mod mod_simps)
  qed
qed

lemma client_put_closed:
  assumes "in_range c" and "inlen \<le> length inbuf"
  shows "client_put c inbuf inlen =
     Inr (c\<lparr>buf := ring_store (buf c) (writeptr c) (take (min inlen (ring_free c)) inbuf),
            writeptr := (writeptr c + min inlen (ring_free c)) mod BUFLEN\<rparr>,
          min inlen (ring_free c))"
  using assms put_loop_closed[of "writeptr c" c inlen inbuf 0]
  by (simp add: client_put_def ring_free_def in_range_def)

text \<open>When the read pointer has left the array, \<open>client_put\<close> never meets it.\<close>

lemma put_loop_unbounded:
  "np = writeptr c \<Longrightarrow> np < BUFLEN \<Longrightarrow> BUFLEN \<le> readptr c \<Longrightarrow> inlen \<le> length inbuf \<Longrightarrow>
   put_loop c inbuf inlen np n =
     Inr (c\<lparr>buf := ring_store (buf c) np (take (inlen - n) (drop n inbuf)),
            writeptr := (np + (inlen - n)) mod BUFLEN\<rparr>,
          n + (inlen - n))"
proof (induction c inbuf inlen np n rule: put_loop.induct)
  case (1 c inbuf inlen np n)
  define np' where "np' = (if BUFLEN \<le> np + 1 then 0 else np + 1)"
  have np'_lt: "np' < BUFLEN" using "1.prems" by (simp add: np'_def)
  have np'_mod: "np' = (np + 1) mod BUFLEN"
    unfolding np'_def using "1.prems"(2) by (rule wrap_succ_mod)
  have ne: "np' \<noteq> readptr c" using np'_lt "1.prems" by simp
  show ?case
  proof (cases "n < inlen")
    case False
    have "put_loop c inbuf inlen np n = Inr (c, n)"
      using False by (subst put_loop.simps) auto
    then show ?thesis using False "1.prems" by simp
  next
    case True
    define c' where "c' = c\<lparr>buf := (buf c)(np := inbuf ! n), writeptr := np'\<rparr>"
    have nlen: "n < length inbuf" using True "1.prems" by simp
    have unf: "put_loop c inbuf inlen np n = put_loop c' inbuf inlen np' (n + 1)"
      using True "1.prems" nlen ne
      by (subst put_loop.simps) (simp add: c'_def np'_def Let_def)
    have IH: "put_loop c' inbuf inlen np' (n + 1) =
       Inr (c'\<lparr>buf := ring_store (buf c') np' (take (inlen - (n + 1)) (drop (n + 1) inbuf)),
               writeptr := (np' + (inlen - (n + 1))) mod BUFLEN\<rparr>, n + 1 + (inlen - (n + 1)))"
      unfolding c'_def np'_def
      apply (rule "1.IH")
      using True "1.prems" np'_lt nlen ne by (simp_all add: np'_def)
    have tk: "take (inlen - n) (drop n inbuf) = inbuf ! n # take (inlen - (n + 1)) (drop (n + 1) inbuf)"
      using nlen True by (simp add: Cons_nth_drop_Suc[symmetric] take_Cons')
    from True obtain m where m: "inlen = Suc (n + m)"
      using less_imp_Suc_add by blast
    have idx: "(np' + (inlen - (n + 1))) mod BUFLEN = (np + (inlen - n)) mod BUFLEN"
      by (simp add: np'_mod m mod_simps)
    show ?thesis
      unfolding unf IH tk
      using idx True by (simp add: c'_def np'_mod mod_simps)
  qed
qed

lemma mod_wrap: "x < 2 * BUFLEN \<Longrightarrow> x mod BUFLEN = (if x < BUFLEN then x else x - BUFLEN)"
  by (simp add: mod_if)

lemma ring_free_cases:
  "in_range c \<Longrightarrow>
   ring_free c = (if writeptr c < readptr c then readptr c - writeptr c - 1
                  else readptr c + BUFLEN - writeptr c - 1)"
  unfolding ring_free_def in_range_def
  by (subst ring_dist_cases) (auto simp: mod_wrap BUFLEN_pos)

lemma ring_used_cases:
  "in_range c \<Longrightarrow>
   ring_used c = (if readptr c \<le> writeptr c then writeptr c - readptr c
                  else writeptr c + BUFLEN - readptr c)"
  unfolding ring_used_def in_range_def by (simp add: ring_dist_cases)

lemma ring_used_free: "in_range c \<Longrightarrow> ring_used c + ring_free c = BUFLEN - 1"
  by (auto simp: ring_used_cases ring_free_cases in_range_def)

lemma ring_store_other:
  "w < BUFLEN \<Longrightarrow> j < BUFLEN \<Longrightarrow> length xs \<le> ring_dist w j \<Longrightarrow> ring_store b w xs j = b j"
proof (induction xs arbitrary: b w)
  case Nil
  then show ?case by simp
next
  case (Cons x xs)
  have ne: "w \<noteq> j" using Cons.prems by (auto simp: ring_dist_same)
  have w': "(w + 1) mod BUFLEN < BUFLEN" by (simp add: BUFLEN_pos)
  have "ring_dist ((w + 1) mod BUFLEN) j = ring_dist w j - 1"
    unfolding wrap_succ_mod[OF Cons.prems(1), symmetric]
    by (rule ring_dist_step) (use Cons.prems ne in auto)
  then have "length xs \<le> ring_dist ((w + 1) mod BUFLEN) j"
    using Cons.prems by simp
  from Cons.IH[OF w' Cons.prems(2) this] ne show ?case by simp
qed

lemma ring_store_nth:
  "w < BUFLEN \<Longrightarrow> length xs \<le> BUFLEN \<Longrightarrow> d < length xs \<Longrightarrow>
   ring_store b w xs ((w + d) mod BUFLEN) = xs ! d"
proof (induction xs arbitrary: b w d)
  case Nil
  then show ?case by simp
next
  case (Cons x xs)
  have w': "(w + 1) mod BUFLEN < BUFLEN" by (simp add: BUFLEN_pos)
  show ?case
  proof (cases d)
    case 0
    have "ring_dist ((w + 1) mod BUFLEN) w = BUFLEN - 1"
      using Cons.prems(1) w' by (subst ring_dist_cases) (auto simp: mod_wrap)
    then have "ring_store (b(w := x)) ((w + 1) mod BUFLEN) xs w = (b(w := x)) w"
      using Cons.prems w' by (intro ring_store_other) auto
    then show ?thesis using 0 Cons.prems by simp
  next
    case (Suc d')
    have "ring_store (b(w := x)) ((w + 1) mod BUFLEN) xs (((w + 1) mod BUFLEN + d') mod BUFLEN) = xs ! d'"
      using Cons.prems Suc w' by (intro Cons.IH) auto
    then show ?thesis using Suc by (simp add: mod_simps)
  qed
qed

lemma client_put_unbounded:
  assumes "writeptr c < BUFLEN" and "BUFLEN \<le> readptr c" and "inlen \<le> length inbuf"
  shows "client_put c inbuf inlen =
     Inr (c\<lparr>buf := ring_store (buf c) (writeptr c) (take inlen inbuf),
            writeptr := (writeptr c + inlen) mod BUFLEN\<rparr>, inlen)"
  using put_loop_unbounded[OF refl assms, of 0] by (simp add: client_put_def)

lemma client_get_outside:
  "BUFLEN \<le> readptr c \<Longrightarrow> readptr c \<noteq> writeptr c \<Longrightarrow> 0 < outlen \<Longrightarrow>
   client_get c outlen = Inl Out_of_bounds"
  unfolding client_get_def by (subst get_loop.simps) simp

lemma length_payload: "length (payload n) = n"
  by (simp add: payload_def)

lemma in_range_fresh: "in_range fresh"
  by (simp add: in_range_def fresh_def client_init_def BUFLEN_def)

text \<open>
  While the read and the write cursor lie in the array, \<open>client_put\<close> copies
  \<open>min n (ring_free c)\<close> bytes: the write cursor advances by that count modulo
  \<open>BUFLEN\<close> and does not reach the read cursor, the number of buffered bytes grows
  by the count and stays at most \<open>BUFLEN - 1\<close>, every byte put in earlier and not
  yet consumed keeps its value, the copied bytes are the first bytes of the source, and
  with no free byte the call returns 0 and changes nothing.
\<close>

lemma client_put_in_range:
  assumes "in_range c" and "n \<le> length src"
  shows "\<exists>c' k. client_put c src n = Inr (c', k)
     \<and> k = min n (ring_free c)
     \<and> readptr c' = readptr c \<and> nextptr c' = nextptr c
     \<and> writeptr c' = (writeptr c + k) mod BUFLEN
     \<and> (0 < k \<longrightarrow> writeptr c' \<noteq> readptr c)
     \<and> ring_used c' = ring_used c + k \<and> ring_used c' \<le> BUFLEN - 1
     \<and> (\<forall>d<ring_used c. buf c' ((readptr c + d) mod BUFLEN) = buf c ((readptr c + d) mod BUFLEN))
     \<and> (\<forall>d<k. buf c' ((writeptr c + d) mod BUFLEN) = src ! d)
     \<and> (ring_free c = 0 \<longrightarrow> k = 0 \<and> c' = c)"
proof -
  define k where "k = min n (ring_free c)"
  define c' where "c' = c\<lparr>buf := ring_store (buf c) (writeptr c) (take k src),
                           writeptr := (writeptr c + k) mod BUFLEN\<rparr>"
  have r: "readptr c < BUFLEN" and w: "writeptr c < BUFLEN"
    using assms(1) by (simp_all add: in_range_def)
  have put: "client_put c src n = Inr (c', k)"
    unfolding c'_def k_def by (rule client_put_closed[OF assms])
  have uf: "ring_used c + ring_free c = BUFLEN - 1"
    by (rule ring_used_free[OF assms(1)])
  have kfree: "k \<le> ring_free c" by (simp add: k_def)
  have klen: "length (take k src) = k" using assms(2) by (simp add: k_def)
  have kB: "k < BUFLEN" using kfree uf BUFLEN_pos by simp
  have in': "in_range c'" using r by (simp add: in_range_def c'_def BUFLEN_pos)
  have rc': "readptr c' = readptr c" and wc': "writeptr c' = (writeptr c + k) mod BUFLEN"
    by (simp_all add: c'_def)
  have used': "ring_used c' = ring_used c + k"
    unfolding ring_used_cases[OF in'] ring_used_cases[OF assms(1)] rc' wc'
    using kfree r w kB
    by (auto simp: ring_free_cases[OF assms(1)] mod_wrap split: if_splits)
  have bound: "ring_used c' \<le> BUFLEN - 1" using used' kfree uf by simp
  have ne: "0 < k \<longrightarrow> writeptr c' \<noteq> readptr c"
  proof
    assume "0 < k"
    then have "0 < ring_used c'" using used' by simp
    then show "writeptr c' \<noteq> readptr c"
      by (auto simp: ring_used_def ring_dist_same c'_def)
  qed
  have keep: "buf c' ((readptr c + d) mod BUFLEN) = buf c ((readptr c + d) mod BUFLEN)"
    if "d < ring_used c" for d
  proof -
    define j where "j = (readptr c + d) mod BUFLEN"
    have j: "j < BUFLEN" by (simp add: j_def BUFLEN_pos)
    have dB: "d < BUFLEN" using that uf by simp
    have jc: "j = (if readptr c + d < BUFLEN then readptr c + d else readptr c + d - BUFLEN)"
      unfolding j_def using r dB by (simp add: mod_wrap)
    have "k \<le> ring_dist (writeptr c) j"
      unfolding ring_dist_cases[OF w j]
      using that kfree r w dB jc
      by (auto simp: ring_used_cases[OF assms(1)] ring_free_cases[OF assms(1)]
          split: if_splits)
    then have "ring_store (buf c) (writeptr c) (take k src) j = buf c j"
      using w j klen by (intro ring_store_other) auto
    then show ?thesis by (simp add: c'_def j_def)
  qed
  have stored: "buf c' ((writeptr c + d) mod BUFLEN) = src ! d" if "d < k" for d
  proof -
    have "ring_store (buf c) (writeptr c) (take k src) ((writeptr c + d) mod BUFLEN)
          = take k src ! d"
      using w klen kB that by (intro ring_store_nth) auto
    then show ?thesis using that by (simp add: c'_def)
  qed
  have full: "ring_free c = 0 \<longrightarrow> k = 0 \<and> c' = c"
    using w by (auto simp: k_def c'_def)
  have nc': "nextptr c' = nextptr c" by (simp add: c'_def)
  show ?thesis
    apply (rule exI[of _ c'], rule exI[of _ k])
    using put k_def rc' nc' wc' ne used' bound keep stored full by blast
qed

lemma client_get_again:
  fixes c :: client and m :: nat
  assumes "in_range c"
  defines "k \<equiv> min m (ring_used c)"
  defines "c' \<equiv> (if k = 0 then c else c\<lparr>nextptr := (readptr c + k) mod BUFLEN\<rparr>)"
  shows "client_get c m = Inr (c', ring_fetch (buf c) (readptr c) k, k)"
    and "client_get c' m = Inr (c', ring_fetch (buf c) (readptr c) k, k)"
    and "get_twice c m = Inr (ring_fetch (buf c) (readptr c) k, ring_fetch (buf c) (readptr c) k)"
proof -
  show first: "client_get c m = Inr (c', ring_fetch (buf c) (readptr c) k, k)"
    unfolding c'_def k_def by (rule client_get_closed[OF assms(1)])
  have in': "in_range c'" using assms(1) by (simp add: in_range_def c'_def)
  have same: "ring_used c' = ring_used c" "buf c' = buf c" "readptr c' = readptr c"
    by (simp_all add: ring_used_def c'_def)
  have "client_get c' m =
     Inr (if min m (ring_used c') = 0 then c'
          else c'\<lparr>nextptr := (readptr c' + min m (ring_used c')) mod BUFLEN\<rparr>,
          ring_fetch (buf c') (readptr c') (min m (ring_used c')),
          min m (ring_used c'))"
    by (rule client_get_closed[OF in'])
  also have "\<dots> = Inr (c', ring_fetch (buf c) (readptr c) k, k)"
    unfolding same k_def[symmetric] by (simp add: c'_def)
  finally show second: "client_get c' m = Inr (c', ring_fetch (buf c) (readptr c) k, k)" .
  show "get_twice c m = Inr (ring_fetch (buf c) (readptr c) k, ring_fetch (buf c) (readptr c) k)"
    by (simp add: get_twice_def first second)
qed

text \<open>
  Claim C6, as the code has it. On a buffer whose read and write cursors lie in the
  array, \<open>client_get\<close> copies \<open>min m (ring_used c)\<close> bytes starting at the read
  cursor (not at the peek cursor), returns that count and, when the count is not 0,
  sets the peek cursor to the read cursor plus the count modulo \<open>BUFLEN\<close>. A second
  call with nothing consumed in between starts at the read cursor again and returns
  the same bytes.
\<close>

theorem peek_out_restarts_at_read_cursor:
  assumes "in_range c"
  shows "\<exists>c' out k. client_get c m = Inr (c', out, k)
     \<and> k = min m (ring_used c)
     \<and> out = ring_fetch (buf c) (readptr c) k
     \<and> c' = (if k = 0 then c else c\<lparr>nextptr := (readptr c + k) mod BUFLEN\<rparr>)
     \<and> client_get c' m = Inr (c', out, k)
     \<and> get_twice c m = Inr (out, out)"
  using client_get_again[OF assms, of m] by blast

lemma in_range_abc: "in_range abc"
  by (simp add: in_range_def abc_def fresh_def client_init_def BUFLEN_def)

theorem peek_out_restarts_at_read_cursor_witness:
  "in_range abc \<and>
   (\<exists>c' out k. client_get abc 2 = Inr (c', out, k)
     \<and> k = min 2 (ring_used abc)
     \<and> out = ring_fetch (buf abc) (readptr abc) k
     \<and> c' = (if k = 0 then abc else abc\<lparr>nextptr := (readptr abc + k) mod BUFLEN\<rparr>)
     \<and> client_get c' 2 = Inr (c', out, k)
     \<and> get_twice abc 2 = Inr (out, out))"
  using in_range_abc peek_out_restarts_at_read_cursor[OF in_range_abc, of 2] by blast

lemma ring_free_empty: "in_range c \<Longrightarrow> readptr c = writeptr c \<Longrightarrow> ring_free c = BUFLEN - 1"
  using ring_used_free[of c] by (simp add: ring_used_def ring_dist_same)

lemma put_abc: "client_put fresh [1, 2, 3] 3 = Inr (abc, 3)"
proof -
  have "ring_free fresh = BUFLEN - 1"
    by (rule ring_free_empty[OF in_range_fresh]) (simp add: fresh_def client_init_def)
  then have "min 3 (ring_free fresh) = 3" by (simp add: BUFLEN_def)
  then show ?thesis
    using client_put_closed[OF in_range_fresh, of 3 "[1, 2, 3]"]
    by (simp add: abc_def fresh_def client_init_def BUFLEN_def)
qed

lemma get_twice_abc: "get_twice abc 2 = Inr ([1, 2], [1, 2])"
proof -
  have u: "ring_used abc = 3"
    by (simp add: ring_used_def ring_dist_def abc_def fresh_def client_init_def BUFLEN_def)
  have f: "ring_fetch (buf abc) (readptr abc) 2 = [1, 2]"
    by (simp add: ring_fetch_def abc_def fresh_def client_init_def client0_def BUFLEN_def
        upt_rec)
  from client_get_again(3)[OF in_range_abc, of 2] show ?thesis
    by (simp add: u f)
qed

text \<open>
  Claim C6 as stated fails: with 1, 2, 3 in the buffer, two calls asking for two bytes
  both return 1, 2; the second does not continue with 3.
\<close>

theorem peek_out_twice_counterexample:
  "client_put fresh [1, 2, 3] 3 = Inr (abc, 3) \<and>
   get_twice abc 2 = Inr ([1, 2], [1, 2]) \<and>
   get_twice abc 2 \<noteq> Inr ([1, 2], [3])"
  by (simp add: put_abc get_twice_abc)

section \<open>The read cursor leaves the array\<close>

lemma wrapped_fields:
  "readptr wrapped = 4095" "writeptr wrapped = 1" "nextptr wrapped = 1"
  by (simp_all add: wrapped_def)

lemma run_ops_wrap_prefix:
  "run_ops (Put (payload 4095) # Get 4096 # Consume 4095 # Put (payload 2) # Get 4096 # rest)
     (fresh, 0, 0) =
   run_ops rest (wrapped, 4097, 4095)"
proof -
  define c1 where "c1 = fresh\<lparr>buf := ring_store (buf fresh) 0 (payload 4095), writeptr := 4095\<rparr>"
  define c2 where "c2 = c1\<lparr>nextptr := 4095\<rparr>"
  define c3 where "c3 = c2\<lparr>readptr := 4095\<rparr>"
  define c4 where "c4 = c3\<lparr>buf := ring_store (buf c3) 4095 (payload 2), writeptr := 1\<rparr>"
  define c5 where "c5 = c4\<lparr>nextptr := 1\<rparr>"
  have fr: "readptr fresh = 0" "writeptr fresh = 0" "nextptr fresh = 0"
    by (simp_all add: fresh_def client_init_def)
  have "ring_free fresh = BUFLEN - 1"
    by (rule ring_free_empty[OF in_range_fresh]) (simp add: fr)
  then have s1: "client_put fresh (payload 4095) 4095 = Inr (c1, 4095)"
    using client_put_closed[OF in_range_fresh, of 4095 "payload 4095"]
    by (simp add: c1_def length_payload fr BUFLEN_def)
  have r1: "in_range c1" by (simp add: in_range_def c1_def fr BUFLEN_def)
  have "ring_used c1 = 4095"
    by (simp add: ring_used_def ring_dist_def c1_def fr BUFLEN_def)
  then have s2: "client_get c1 4096 = Inr (c2, ring_fetch (buf c1) 0 4095, 4095)"
    using client_get_closed[OF r1, of 4096] by (simp add: c2_def c1_def fr BUFLEN_def)
  have s3: "client_consume c2 4095 = (c3, 4095)"
    by (simp add: client_consume_closed c3_def c2_def c1_def fr)
  have r3: "in_range c3" by (simp add: in_range_def c3_def c2_def c1_def BUFLEN_def)
  have "ring_free c3 = BUFLEN - 1"
    by (rule ring_free_empty[OF r3]) (simp add: c3_def c2_def c1_def)
  then have s4: "client_put c3 (payload 2) 2 = Inr (c4, 2)"
    using client_put_closed[OF r3, of 2 "payload 2"]
    by (simp add: c4_def c3_def c2_def c1_def length_payload BUFLEN_def)
  have r4: "in_range c4" by (simp add: in_range_def c4_def c3_def BUFLEN_def)
  have "ring_used c4 = 2"
    by (simp add: ring_used_def ring_dist_def c4_def c3_def BUFLEN_def)
  then have s5: "client_get c4 4096 = Inr (c5, ring_fetch (buf c4) 4095 2, 2)"
    using client_get_closed[OF r4, of 4096] by (simp add: c5_def c4_def c3_def BUFLEN_def)
  have c5: "c5 = wrapped"
    by (simp add: wrapped_def c5_def c4_def c3_def c2_def c1_def)
  show ?thesis
    by (simp add: s1 s2 s3 s4 s5 length_payload c5)
qed

lemma consume_wrapped: "client_consume wrapped len = (wrapped\<lparr>readptr := 4095 + len\<rparr>, len)"
  by (simp add: client_consume_closed wrapped_fields)

text \<open>
  Claim C1 fails on the code. After the write and peek cursors have wrapped,
  \<open>client_consume\<close> no longer stops at the peek cursor: 4097 bytes were put in and
  4098 are reported consumed. When each peek is followed by a consume of exactly the
  returned count, the read cursor ends outside the array and the next peek of newly
  put bytes loads from outside the array instead of returning them.
\<close>

theorem consumed_exceeds_put_after_wrap:
  "map_sum id snd
     (run_ops [Put (payload 4095), Get 4096, Consume 4095, Put (payload 2), Get 4096, Consume 3]
        (fresh, 0, 0)) = Inr (4097, 4098)
   \<and> run_ops [Put (payload 4095), Get 4096, Consume 4095, Put (payload 2), Get 4096, Consume 2,
               Put (payload 3), Get 4096]
        (fresh, 0, 0) = Inl Out_of_bounds"
proof -
  define c6 where "c6 = wrapped\<lparr>readptr := 4095 + 2\<rparr>"
  define c7 where "c7 = c6\<lparr>buf := ring_store (buf c6) (writeptr c6) (take 3 (payload 3)),
                          writeptr := (writeptr c6 + 3) mod BUFLEN\<rparr>"
  have b: "client_consume wrapped 2 = (c6, 2)"
    unfolding c6_def by (rule consume_wrapped)
  have p: "client_put c6 (payload 3) 3 = Inr (c7, 3)"
    unfolding c7_def
    by (rule client_put_unbounded) (simp_all add: c6_def wrapped_fields length_payload BUFLEN_def)
  have g: "client_get c7 4096 = Inl Out_of_bounds"
    by (rule client_get_outside) (simp_all add: c7_def c6_def wrapped_fields BUFLEN_def)
  have "run_ops [Consume 3] (wrapped, 4097, 4095) = Inr (wrapped\<lparr>readptr := 4095 + 3\<rparr>, 4097, 4098)"
    by (simp add: consume_wrapped)
  moreover have "run_ops [Consume 2, Put (payload 3), Get 4096] (wrapped, 4097, 4095)
                 = Inl Out_of_bounds"
    by (simp add: b p g length_payload)
  ultimately show ?thesis
    unfolding run_ops_wrap_prefix by simp
qed

text \<open>
  Claim C2 fails on the code. \<open>client_consume\<close> increments the read cursor without
  wrapping it: after 4095 bytes and then 2 bytes were put in, peeked and consumed, the
  read cursor is at offset 4097, which is not below \<open>BUFLEN\<close>.
\<close>

theorem read_cursor_leaves_array:
  "map_sum id (readptr \<circ> fst)
     (run_ops [Put (payload 4095), Get 4096, Consume 4095, Put (payload 2), Get 4096, Consume 2]
        (fresh, 0, 0)) = Inr 4097
   \<and> \<not> 4097 < BUFLEN"
proof -
  have "run_ops [Consume 2] (wrapped, 4097, 4095) = Inr (wrapped\<lparr>readptr := 4095 + 2\<rparr>, 4097, 4097)"
    by (simp add: consume_wrapped)
  then show ?thesis
    unfolding run_ops_wrap_prefix by (simp add: BUFLEN_def)
qed

text \<open>
  Claim C8 fails on the code. The calls that echo 4095 bytes and then 2 bytes leave the
  read cursor at offset 4097, outside the array, where the stop test of \<open>client_put\<close>
  never holds: a following \<open>client_put\<close> of 4096 bytes copies all of them, more than
  the \<open>BUFLEN - 1\<close> bytes the buffer can hold, and one of 5000 bytes copies all of
  them as well, storing over bytes that were not consumed.
\<close>

theorem put_unbounded_after_wrap:
  "map_sum id fst
     (run_ops [Put (payload 4095), Get 4096, Consume 4095, Put (payload 2), Get 4096, Consume 2]
        (fresh, 0, 0)) = Inr strayed
   \<and> map_sum id snd (client_put strayed (payload 4096) 4096) = Inr 4096
   \<and> map_sum id snd (client_put strayed (payload 5000) 5000) = Inr 5000
   \<and> BUFLEN - 1 < 4096"
proof -
  have "run_ops [Consume 2] (wrapped, 4097, 4095) = Inr (wrapped\<lparr>readptr := 4095 + 2\<rparr>, 4097, 4097)"
    by (simp add: consume_wrapped)
  then have a: "map_sum id fst
     (run_ops [Put (payload 4095), Get 4096, Consume 4095, Put (payload 2), Get 4096, Consume 2]
        (fresh, 0, 0)) = Inr strayed"
    unfolding run_ops_wrap_prefix by (simp add: strayed_def)
  have s: "writeptr strayed < BUFLEN" "BUFLEN \<le> readptr strayed"
    by (simp_all add: strayed_def wrapped_fields BUFLEN_def)
  have b: "map_sum id snd (client_put strayed (payload 4096) 4096) = Inr 4096"
    using client_put_unbounded[OF s, of 4096 "payload 4096"] by (simp add: length_payload)
  have c: "map_sum id snd (client_put strayed (payload 5000) 5000) = Inr 5000"
    using client_put_unbounded[OF s, of 5000 "payload 5000"] by (simp add: length_payload)
  show ?thesis
    using a b c by (simp add: BUFLEN_def)
qed

section \<open>One notification\<close>

lemmas poll_defs = POLLIN_def POLLOUT_def POLLERR_def POLLHUP_def POLLNVAL_def

lemma get_loop_count:
  "get_loop c outlen np out n = Inr (c', out', n') \<Longrightarrow>
   n \<le> n' \<and> (n' = n \<longrightarrow> c' = c \<and> out' = out)"
proof (induction c outlen np out n rule: get_loop.induct)
  case (1 c outlen np out n)
  show ?case
  proof (cases "n < outlen \<and> np \<noteq> writeptr c \<and> \<not> BUFLEN \<le> np")
    case True
    then have "get_loop c outlen np out n =
      get_loop (c\<lparr>nextptr := (if BUFLEN \<le> np + 1 then 0 else np + 1)\<rparr>) outlen
        (if BUFLEN \<le> np + 1 then 0 else np + 1) (out @ [buf c np]) (n + 1)"
      by (subst get_loop.simps) (simp add: Let_def)
    with "1.prems" have "n + 1 \<le> n'"
      using "1.IH"[of "(if BUFLEN \<le> np + 1 then 0 else np + 1)"] True by simp
    then show ?thesis by simp
  next
    case False
    with "1.prems" show ?thesis
      by (subst (asm) get_loop.simps) (auto split: if_splits)
  qed
qed

lemma client_get_zero:
  "client_get c m = Inr (c', out, 0) \<Longrightarrow> c' = c \<and> out = []"
  unfolding client_get_def by (drule get_loop_count) simp

text \<open>
  Claim C3, as the code has it. A connection in state \<open>STATE_WRITING\<close> is notified
  of a condition it asked for (no error, no hangup) and \<open>client_get\<close> returns 0
  bytes: \<open>handle_client\<close> makes no call at all (the trace is unchanged, so no channel
  I/O happens), leaves the buffer and the descriptor alone, and moves the connection
  to \<open>STATE_READING\<close>, asking for readability.
\<close>

theorem writing_with_nothing_buffered:
  assumes "state (clients s i) = STATE_WRITING"
    and "revents (pollfds s i) AND (POLLERR OR POLLNVAL) = 0"
    and "revents (pollfds s i) AND POLLHUP = 0"
    and "revents (pollfds s i) AND events (pollfds s i) \<noteq> 0"
    and "client_get (clients s i) BUFLEN = Inr (c', out, 0)"
  shows "handle_client i e s =
           Inr (set_events i (POLLIN OR POLLHUP)
                  (set_client i ((clients s i)\<lparr>state := STATE_READING\<rparr>) s))
     \<and> map_sum id (slot_state i) (handle_client i e s) = Inr STATE_READING
     \<and> map_sum id (slot_events i) (handle_client i e s) = Inr (POLLIN OR POLLHUP)
     \<and> map_sum id trace (handle_client i e s) = Inr (trace s)
     \<and> map_sum id (slot_fd i) (handle_client i e s) = Inr (fd (pollfds s i))"
proof -
  have same: "c' = clients s i" "out = []"
    using client_get_zero[OF assms(5)] by simp_all
  have w: "state (clients s i) \<noteq> STATE_READING"
    using assms(1) by (simp add: STATE_READING_def STATE_WRITING_def)
  have hw: "handle_writing i e s =
           Inr (set_events i (POLLIN OR POLLHUP)
                  (set_client i ((clients s i)\<lparr>state := STATE_READING\<rparr>) s))"
    using assms(5) unfolding same
    by (simp add: handle_writing_def Let_def set_client_def)
  have hc: "handle_client i e s = handle_writing i e s"
    using assms(1-4) w by (simp add: handle_client_def)
  show ?thesis
    unfolding hc hw
    by (simp add: slot_state_def slot_events_def slot_fd_def set_events_def set_client_def)
qed

lemma server_w_slot:
  "pollfds server_w 1 = \<lparr>fd = 4, events = POLLOUT OR POLLHUP, revents = POLLOUT\<rparr>"
  "clients server_w 1 = fresh\<lparr>state := STATE_WRITING\<rparr>"
  by (simp_all add: server_w_def)

lemmas server_w_slot_Suc = server_w_slot[unfolded One_nat_def]

lemma get_empty: "readptr c = writeptr c \<Longrightarrow> client_get c m = Inr (c, [], 0)"
  unfolding client_get_def by (subst get_loop.simps) simp

lemma get_fresh_writing: "client_get (fresh\<lparr>state := STATE_WRITING\<rparr>) BUFLEN
   = Inr (fresh\<lparr>state := STATE_WRITING\<rparr>, [], 0)"
  by (rule get_empty) (simp add: fresh_def client_init_def)

theorem writing_with_nothing_buffered_witness:
  "state (clients server_w 1) = STATE_WRITING
   \<and> revents (pollfds server_w 1) AND (POLLERR OR POLLNVAL) = 0
   \<and> revents (pollfds server_w 1) AND POLLHUP = 0
   \<and> revents (pollfds server_w 1) AND events (pollfds server_w 1) \<noteq> 0
   \<and> client_get (clients server_w 1) BUFLEN = Inr (fresh\<lparr>state := STATE_WRITING\<rparr>, [], 0)
   \<and> handle_client 1 quiet server_w =
           Inr (set_events 1 (POLLIN OR POLLHUP)
                  (set_client 1 ((clients server_w 1)\<lparr>state := STATE_READING\<rparr>) server_w))
   \<and> map_sum id (slot_state 1) (handle_client 1 quiet server_w) = Inr STATE_READING
   \<and> map_sum id (slot_events 1) (handle_client 1 quiet server_w) = Inr (POLLIN OR POLLHUP)
   \<and> map_sum id trace (handle_client 1 quiet server_w) = Inr (trace server_w)
   \<and> map_sum id (slot_fd 1) (handle_client 1 quiet server_w) = Inr (fd (pollfds server_w 1))"
proof -
  have a: "state (clients server_w 1) = STATE_WRITING" by (simp add: server_w_slot_Suc)
  have b: "revents (pollfds server_w 1) AND (POLLERR OR POLLNVAL) = 0"
    by (simp add: server_w_slot_Suc poll_defs)
  have c: "revents (pollfds server_w 1) AND POLLHUP = 0"
    by (simp add: server_w_slot_Suc poll_defs)
  have d: "revents (pollfds server_w 1) AND events (pollfds server_w 1) \<noteq> 0"
    by (simp add: server_w_slot_Suc poll_defs)
  have g: "client_get (clients server_w 1) BUFLEN = Inr (fresh\<lparr>state := STATE_WRITING\<rparr>, [], 0)"
    by (simp add: server_w_slot_Suc get_fresh_writing)
  show ?thesis
    using a b c d g writing_with_nothing_buffered[OF a b c d g, of quiet] by blast
qed

text \<open>
  Claim C3 as stated fails: the connection of \<open>server_w\<close> is in state
  \<open>STATE_WRITING\<close>, the notification meets its requested events and the peek returns
  0 bytes, yet after \<open>handle_client\<close> the connection is in \<open>STATE_READING\<close>.
\<close>

theorem writing_demoted_counterexample:
  "slot_state 1 server_w = STATE_WRITING
   \<and> revents (pollfds server_w 1) AND events (pollfds server_w 1) \<noteq> 0
   \<and> map_sum id (fst \<circ> snd) (client_get (clients server_w 1) BUFLEN) = Inr []
   \<and> map_sum id (slot_state 1) (handle_client 1 quiet server_w) = Inr STATE_READING
   \<and> STATE_READING \<noteq> STATE_WRITING"
proof -
  have w: "state (fresh\<lparr>state := STATE_WRITING\<rparr>) \<noteq> STATE_READING"
    by (simp add: STATE_READING_def STATE_WRITING_def)
  have hw: "handle_writing 1 quiet server_w =
           Inr (set_events 1 (POLLIN OR POLLHUP)
                  (set_client 1 ((clients server_w 1)\<lparr>state := STATE_READING\<rparr>) server_w))"
    by (simp add: handle_writing_def Let_def set_client_def server_w_slot_Suc get_fresh_writing)
  have hc: "handle_client 1 quiet server_w = handle_writing 1 quiet server_w"
    using w by (simp add: handle_client_def server_w_slot_Suc poll_defs)
  have a: "slot_state 1 server_w = STATE_WRITING"
    by (simp add: slot_state_def server_w_slot_Suc)
  have b: "revents (pollfds server_w 1) AND events (pollfds server_w 1) \<noteq> 0"
    by (simp add: server_w_slot_Suc poll_defs)
  have c: "map_sum id (fst \<circ> snd) (client_get (clients server_w 1) BUFLEN) = Inr []"
    by (simp add: server_w_slot_Suc get_fresh_writing)
  have d: "map_sum id (slot_state 1) (handle_client 1 quiet server_w) = Inr STATE_READING"
    unfolding hc hw by (simp add: slot_state_def set_events_def set_client_def)
  have e: "STATE_READING \<noteq> STATE_WRITING"
    by (simp add: STATE_READING_def STATE_WRITING_def)
  show ?thesis
    using a b c d e by blast
qed

lemma frees_append: "frees (xs @ ys) = frees xs + frees ys"
  by (simp add: frees_def)

lemma frees_simps:
  "frees [] = 0"
  "frees (Tls_free c # xs) = Suc (frees xs)"
  "frees (Tls_read c # xs) = frees xs"
  "frees (Tls_write c bs # xs) = frees xs"
  "frees (Tls_close c # xs) = frees xs"
  "frees (Tls_accept_socket d # xs) = frees xs"
  "frees (Accept # xs) = frees xs"
  "frees (Close d # xs) = frees xs"
  "frees (Warn m # xs) = frees xs"
  by (simp_all add: frees_def)

lemma get_loop_keeps:
  "get_loop c outlen np out n = Inr (c', out', n') \<Longrightarrow>
   state c' = state c \<and> readptr c' = readptr c \<and> writeptr c' = writeptr c
   \<and> buf c' = buf c \<and> ctx c' = ctx c"
proof (induction c outlen np out n rule: get_loop.induct)
  case (1 c outlen np out n)
  show ?case
  proof (cases "n < outlen \<and> np \<noteq> writeptr c \<and> \<not> BUFLEN \<le> np")
    case True
    then have "get_loop c outlen np out n =
      get_loop (c\<lparr>nextptr := (if BUFLEN \<le> np + 1 then 0 else np + 1)\<rparr>) outlen
        (if BUFLEN \<le> np + 1 then 0 else np + 1) (out @ [buf c np]) (n + 1)"
      by (subst get_loop.simps) (simp add: Let_def)
    with "1.prems" show ?thesis
      using "1.IH"[of "(if BUFLEN \<le> np + 1 then 0 else np + 1)"] True by simp
  next
    case False
    with "1.prems" show ?thesis
      by (subst (asm) get_loop.simps) (auto split: if_splits)
  qed
qed

lemma client_get_keeps:
  "client_get c m = Inr (c', out, n) \<Longrightarrow>
   state c' = state c \<and> readptr c' = readptr c"
  unfolding client_get_def by (drule get_loop_keeps) simp

text \<open>
  Claim C4, as the code has it. When \<open>tls_read\<close> (state \<open>STATE_READING\<close>) or
  \<open>tls_write\<close> (state \<open>STATE_WRITING\<close>, some bytes peeked) returns a hard error,
  \<open>handle_client\<close> logs it with \<open>warn\<close> and does nothing else: the connection is
  not closed, its descriptor stays in the slot, the secure channel is not freed, the
  state and the requested events stay as they are and nothing is consumed.
\<close>

theorem hard_error_is_only_logged:
  assumes "revents (pollfds s i) AND (POLLERR OR POLLNVAL) = 0"
    and "revents (pollfds s i) AND POLLHUP = 0"
    and "revents (pollfds s i) AND events (pollfds s i) \<noteq> 0"
    and "hard_error (tls_ret e)"
  shows "(state (clients s i) = STATE_READING \<longrightarrow>
            handle_client i e s =
              Inr (s\<lparr>trace := trace s @ [Tls_read (ctx (clients s i)), Warn ''tls_read'']\<rparr>))
     \<and> (state (clients s i) = STATE_WRITING \<longrightarrow>
          client_get (clients s i) BUFLEN = Inr (c', out, n) \<longrightarrow> 0 < n \<longrightarrow>
            handle_client i e s =
              Inr (s\<lparr>clients := (clients s)(i := c'),
                     trace := trace s @ [Tls_write (ctx c') out, Warn ''tls_write'']\<rparr>)
            \<and> state c' = STATE_WRITING \<and> readptr c' = readptr (clients s i))"
proof (intro conjI impI)
  have e: "tls_ret e < 0" "tls_ret e \<noteq> TLS_WANT_POLLIN" "tls_ret e \<noteq> TLS_WANT_POLLOUT"
    using assms(4) by (simp_all add: hard_error_def)
  {
    assume r: "state (clients s i) = STATE_READING"
    have "handle_client i e s = handle_reading i e s"
      using assms(1-3) r by (simp add: handle_client_def)
    also have "\<dots> = Inr (s\<lparr>trace := trace s @ [Tls_read (ctx (clients s i)), Warn ''tls_read'']\<rparr>)"
      using e by (simp add: handle_reading_def Let_def emit_def)
    finally show "handle_client i e s =
        Inr (s\<lparr>trace := trace s @ [Tls_read (ctx (clients s i)), Warn ''tls_read'']\<rparr>)" .
  }
  {
    assume w: "state (clients s i) = STATE_WRITING"
      and g: "client_get (clients s i) BUFLEN = Inr (c', out, n)" and n: "0 < n"
    have nr: "state (clients s i) \<noteq> STATE_READING"
      using w by (simp add: STATE_READING_def STATE_WRITING_def)
    have in_c': "state c' = state (clients s i) \<and> readptr c' = readptr (clients s i)"
      using g by (rule client_get_keeps)
    have "handle_client i e s = handle_writing i e s"
      using assms(1-3) w nr by (simp add: handle_client_def)
    also have "\<dots> = Inr (s\<lparr>clients := (clients s)(i := c'),
                     trace := trace s @ [Tls_write (ctx c') out, Warn ''tls_write'']\<rparr>)"
      using e n g by (simp add: handle_writing_def Let_def emit_def set_client_def)
    finally show "handle_client i e s = Inr (s\<lparr>clients := (clients s)(i := c'),
                     trace := trace s @ [Tls_write (ctx c') out, Warn ''tls_write'']\<rparr>)" .
    show "state c' = STATE_WRITING" using in_c' w by simp
    show "readptr c' = readptr (clients s i)" using in_c' by simp
  }
qed

lemma server_in_slot:
  "pollfds server_in 1 = \<lparr>fd = 4, events = POLLIN OR POLLHUP, revents = POLLIN\<rparr>"
  "clients server_in 1 = fresh"
  "trace server_in = []"
  by (simp_all add: server_in_def deliver_def server1_def server0_def free_pfd_def)

lemma server_abc_slot:
  "pollfds server_abc 1 = \<lparr>fd = 4, events = POLLOUT OR POLLHUP, revents = POLLOUT\<rparr>"
  "clients server_abc 1 = abc\<lparr>state := STATE_WRITING\<rparr>"
  by (simp_all add: server_abc_def)

lemma fresh_fields:
  "state fresh = STATE_READING" "readptr fresh = 0" "writeptr fresh = 0" "nextptr fresh = 0"
  "ctx fresh = 7"
  by (simp_all add: fresh_def client_init_def)

lemma abc_fields:
  "state abc = STATE_READING" "readptr abc = 0" "writeptr abc = 3" "nextptr abc = 0"
  "ctx abc = 7"
  by (simp_all add: abc_def fresh_fields)

lemma fetch_abc: "ring_fetch (buf abc) 0 3 = [1, 2, 3]"
  by (simp add: ring_fetch_def abc_def fresh_def client_init_def client0_def BUFLEN_def upt_rec)

lemma get_abc_writing:
  "client_get (abc\<lparr>state := STATE_WRITING\<rparr>) BUFLEN
     = Inr (abc\<lparr>state := STATE_WRITING, nextptr := 3\<rparr>, [1, 2, 3], 3)"
proof -
  have r: "in_range (abc\<lparr>state := STATE_WRITING\<rparr>)"
    using in_range_abc by (simp add: in_range_def)
  have u: "ring_used (abc\<lparr>state := STATE_WRITING\<rparr>) = 3"
    by (simp add: ring_used_def ring_dist_def abc_fields BUFLEN_def)
  have m: "min BUFLEN (ring_used (abc\<lparr>state := STATE_WRITING\<rparr>)) = 3"
    by (simp add: u BUFLEN_def)
  show ?thesis
    using client_get_closed[OF r, of BUFLEN] unfolding m
    by (simp add: abc_fields fetch_abc BUFLEN_def)
qed

lemma hard_error_failing: "hard_error (tls_ret failing)"
  by (simp add: hard_error_def failing_def TLS_WANT_POLLIN_def TLS_WANT_POLLOUT_def)

theorem hard_error_is_only_logged_witness:
  "(revents (pollfds server_in 1) AND (POLLERR OR POLLNVAL) = 0
    \<and> revents (pollfds server_in 1) AND POLLHUP = 0
    \<and> revents (pollfds server_in 1) AND events (pollfds server_in 1) \<noteq> 0
    \<and> hard_error (tls_ret failing)
    \<and> state (clients server_in 1) = STATE_READING
    \<and> handle_client 1 failing server_in =
         Inr (server_in\<lparr>trace := trace server_in @
                [Tls_read (ctx (clients server_in 1)), Warn ''tls_read'']\<rparr>))
   \<and> (revents (pollfds server_abc 1) AND (POLLERR OR POLLNVAL) = 0
    \<and> revents (pollfds server_abc 1) AND POLLHUP = 0
    \<and> revents (pollfds server_abc 1) AND events (pollfds server_abc 1) \<noteq> 0
    \<and> state (clients server_abc 1) = STATE_WRITING
    \<and> client_get (clients server_abc 1) BUFLEN
         = Inr (abc\<lparr>state := STATE_WRITING, nextptr := 3\<rparr>, [1, 2, 3], 3)
    \<and> (0::nat) < 3
    \<and> handle_client 1 failing server_abc =
         Inr (server_abc\<lparr>clients := (clients server_abc)
                             (1 := abc\<lparr>state := STATE_WRITING, nextptr := 3\<rparr>),
                trace := trace server_abc @
                  [Tls_write (ctx (abc\<lparr>state := STATE_WRITING, nextptr := 3\<rparr>)) [1, 2, 3],
                   Warn ''tls_write'']\<rparr>))"
proof -
  have a1: "revents (pollfds server_in 1) AND (POLLERR OR POLLNVAL) = 0"
    and a2: "revents (pollfds server_in 1) AND POLLHUP = 0"
    and a3: "revents (pollfds server_in 1) AND events (pollfds server_in 1) \<noteq> 0"
    by (simp_all add: server_in_slot[unfolded One_nat_def] poll_defs)
  have a5: "state (clients server_in 1) = STATE_READING"
    by (simp add: server_in_slot[unfolded One_nat_def] fresh_fields)
  have b1: "revents (pollfds server_abc 1) AND (POLLERR OR POLLNVAL) = 0"
    and b2: "revents (pollfds server_abc 1) AND POLLHUP = 0"
    and b3: "revents (pollfds server_abc 1) AND events (pollfds server_abc 1) \<noteq> 0"
    by (simp_all add: server_abc_slot[unfolded One_nat_def] poll_defs)
  have b5: "state (clients server_abc 1) = STATE_WRITING"
    by (simp add: server_abc_slot[unfolded One_nat_def])
  have b6: "client_get (clients server_abc 1) BUFLEN
         = Inr (abc\<lparr>state := STATE_WRITING, nextptr := 3\<rparr>, [1, 2, 3], 3)"
    by (simp add: server_abc_slot[unfolded One_nat_def] get_abc_writing)
  have b7: "(0::nat) < 3" by simp
  note r = hard_error_is_only_logged[OF a1 a2 a3 hard_error_failing, THEN conjunct1, rule_format, OF a5]
  note w = hard_error_is_only_logged[OF b1 b2 b3 hard_error_failing, THEN conjunct2, rule_format,
      OF b5 b6 b7, THEN conjunct1]
  show ?thesis
    using a1 a2 a3 a5 b1 b2 b3 b5 b6 b7 hard_error_failing r w by blast
qed

lemma handle_failing_read:
  "handle_client 1 failing server_in =
     Inr (server_in\<lparr>trace := [Tls_read 7, Warn ''tls_read'']\<rparr>)"
proof -
  have hr: "handle_reading 1 failing server_in =
     Inr (server_in\<lparr>trace := [Tls_read 7, Warn ''tls_read'']\<rparr>)"
    using hard_error_failing
    by (simp add: handle_reading_def Let_def emit_def hard_error_def
        server_in_slot[unfolded One_nat_def] fresh_fields)
  have hc: "handle_client 1 failing server_in = handle_reading 1 failing server_in"
    by (simp add: handle_client_def server_in_slot[unfolded One_nat_def] poll_defs fresh_fields)
  show ?thesis unfolding hc hr ..
qed

text \<open>
  Claim C4 as stated fails: \<open>tls_read\<close> returns \<open>-1\<close> on the connection in slot 1;
  afterwards the slot still holds descriptor 4 (it is not free) and no secure channel
  was freed.
\<close>

theorem hard_error_not_closed_counterexample:
  "hard_error (tls_ret failing)
   \<and> slot_state 1 server_in = STATE_READING
   \<and> revents (pollfds server_in 1) AND events (pollfds server_in 1) \<noteq> 0
   \<and> map_sum id (slot_fd 1) (handle_client 1 failing server_in) = Inr 4
   \<and> map_sum id (frees \<circ> trace) (handle_client 1 failing server_in) = Inr 0
   \<and> (4::int) \<noteq> - 1"
proof -
  have a: "revents (pollfds server_in 1) AND events (pollfds server_in 1) \<noteq> 0"
    by (simp add: server_in_slot[unfolded One_nat_def] poll_defs)
  have b: "slot_state 1 server_in = STATE_READING"
    by (simp add: slot_state_def server_in_slot[unfolded One_nat_def] fresh_fields)
  have c: "map_sum id (slot_fd 1) (handle_client 1 failing server_in) = Inr 4"
    unfolding handle_failing_read
    by (simp add: slot_fd_def server_in_slot[unfolded One_nat_def])
  have d: "map_sum id (frees \<circ> trace) (handle_client 1 failing server_in) = Inr 0"
    unfolding handle_failing_read by (simp add: frees_simps)
  show ?thesis
    using a b c d hard_error_failing by simp
qed

section \<open>What one notification can touch\<close>

lemma put_loop_error: "put_loop c inbuf inlen np n = Inl x \<Longrightarrow> x = Out_of_bounds"
proof (induction c inbuf inlen np n rule: put_loop.induct)
  case (1 c inbuf inlen np n)
  define np' where "np' = (if BUFLEN \<le> np + 1 then 0 else np + 1)"
  show ?case
  proof (cases "n < inlen \<and> np' \<noteq> readptr c \<and> \<not> (BUFLEN \<le> np \<or> length inbuf \<le> n)")
    case True
    then have "put_loop c inbuf inlen np n =
      put_loop (c\<lparr>buf := (buf c)(np := inbuf ! n), writeptr := np'\<rparr>) inbuf inlen np' (n + 1)"
      by (subst put_loop.simps) (simp add: Let_def np'_def)
    with "1.prems" show ?thesis
      using "1.IH"[of np np'] True by (simp add: np'_def)
  next
    case False
    with "1.prems" show ?thesis
      by (subst (asm) put_loop.simps) (auto simp: Let_def np'_def split: if_splits)
  qed
qed

lemma get_loop_error: "get_loop c outlen np out n = Inl x \<Longrightarrow> x = Out_of_bounds"
proof (induction c outlen np out n rule: get_loop.induct)
  case (1 c outlen np out n)
  show ?case
  proof (cases "n < outlen \<and> np \<noteq> writeptr c \<and> \<not> BUFLEN \<le> np")
    case True
    then have "get_loop c outlen np out n =
      get_loop (c\<lparr>nextptr := (if BUFLEN \<le> np + 1 then 0 else np + 1)\<rparr>) outlen
        (if BUFLEN \<le> np + 1 then 0 else np + 1) (out @ [buf c np]) (n + 1)"
      by (subst get_loop.simps) (simp add: Let_def)
    with "1.prems" show ?thesis
      using "1.IH"[of "(if BUFLEN \<le> np + 1 then 0 else np + 1)"] True by simp
  next
    case False
    with "1.prems" show ?thesis
      by (subst (asm) get_loop.simps) (auto split: if_splits)
  qed
qed

lemma closeconn_Inl: "closeconn i e s = Inl x \<Longrightarrow> x = Never_returns"
  by (auto simp: closeconn_def split: option.splits)

lemma closeconn_Inr:
  assumes "closeconn i e s = Inr s'"
  shows "clients s' = clients s" and "j \<noteq> i \<Longrightarrow> pollfds s' j = pollfds s j"
    and "throttle s' = 0" and "fd (pollfds s' i) = - 1"
    and "events (pollfds s' i) = events (pollfds s i)"
    and "frees (trace s') = Suc (frees (trace s))"
  using assms
  by (auto simp: closeconn_def frees_def split: option.splits)

lemma closeconn_frame:
  "closeconn i e s = Inr s' \<Longrightarrow> j \<noteq> i \<Longrightarrow>
   pollfds s' j = pollfds s j \<and> clients s' j = clients s j"
  by (auto simp: closeconn_def split: option.splits)

lemma handle_reading_Inl: "handle_reading i e s = Inl x \<Longrightarrow> x \<noteq> Exit n"
  by (auto simp: handle_reading_def Let_def client_put_def
      split: if_splits sum.splits prod.splits dest: closeconn_Inl put_loop_error)

lemma handle_reading_frame:
  "handle_reading i e s = Inr s' \<Longrightarrow> j \<noteq> i \<Longrightarrow>
   pollfds s' j = pollfds s j \<and> clients s' j = clients s j"
  by (auto simp: handle_reading_def Let_def emit_def set_events_def set_client_def
      split: if_splits sum.splits prod.splits dest: closeconn_frame[where j = j])

lemma handle_writing_Inl: "handle_writing i e s = Inl x \<Longrightarrow> x \<noteq> Exit n"
  by (auto simp: handle_writing_def Let_def client_get_def
      split: if_splits sum.splits prod.splits dest: get_loop_error)

lemma handle_writing_frame:
  "handle_writing i e s = Inr s' \<Longrightarrow> j \<noteq> i \<Longrightarrow>
   pollfds s' j = pollfds s j \<and> clients s' j = clients s j"
  by (auto simp: handle_writing_def Let_def emit_def set_events_def set_client_def
      split: if_splits sum.splits prod.splits)

text \<open>
  Claim C9, as the code has it. A notification that reports \<open>POLLERR\<close> or
  \<open>POLLNVAL\<close> ends the whole process with status 1 (\<open>errx\<close>). Any other
  notification never ends the process, and when \<open>handle_client\<close> returns, the slots
  and clients of all other connections are as they were: only the slot and client it
  was called for, the throttle and the trace of calls can differ.
\<close>

theorem notification_touches_one_slot:
  "(revents (pollfds s i) AND (POLLERR OR POLLNVAL) \<noteq> 0 \<longrightarrow>
      handle_client i e s = Inl (Exit 1))
   \<and> (revents (pollfds s i) AND (POLLERR OR POLLNVAL) = 0 \<longrightarrow>
        handle_client i e s \<noteq> Inl (Exit n)
        \<and> (handle_client i e s = Inr s' \<longrightarrow> j \<noteq> i \<longrightarrow>
             pollfds s' j = pollfds s j \<and> clients s' j = clients s j))"
proof (intro conjI impI)
  assume "revents (pollfds s i) AND (POLLERR OR POLLNVAL) \<noteq> 0"
  then show "handle_client i e s = Inl (Exit 1)"
    by (simp add: handle_client_def)
next
  assume ok: "revents (pollfds s i) AND (POLLERR OR POLLNVAL) = 0"
  show "handle_client i e s \<noteq> Inl (Exit n)"
  proof
    assume "handle_client i e s = Inl (Exit n)"
    then show False
      using ok
      by (auto simp: handle_client_def split: if_splits
          dest: closeconn_Inl handle_reading_Inl handle_writing_Inl)
  qed
next
  assume ok: "revents (pollfds s i) AND (POLLERR OR POLLNVAL) = 0"
    and r: "handle_client i e s = Inr s'" and j: "j \<noteq> i"
  from r ok j show "pollfds s' j = pollfds s j"
    by (auto simp: handle_client_def split: if_splits
        dest: closeconn_frame[where j = j] handle_reading_frame[where j = j]
          handle_writing_frame[where j = j])
  from r ok j show "clients s' j = clients s j"
    by (auto simp: handle_client_def split: if_splits
        dest: closeconn_frame[where j = j] handle_reading_frame[where j = j]
          handle_writing_frame[where j = j])
qed

lemma server_err_slot:
  "pollfds server_err 1 = \<lparr>fd = 4, events = POLLIN OR POLLHUP, revents = POLLERR\<rparr>"
  by (simp add: server_err_def deliver_def server1_def server0_def free_pfd_def)

theorem notification_touches_one_slot_witness:
  "(revents (pollfds server_err 1) AND (POLLERR OR POLLNVAL) \<noteq> 0
    \<and> handle_client 1 quiet server_err = Inl (Exit 1))
   \<and> (revents (pollfds server_in 1) AND (POLLERR OR POLLNVAL) = 0
    \<and> handle_client 1 failing server_in \<noteq> Inl (Exit 1)
    \<and> handle_client 1 failing server_in =
          Inr (server_in\<lparr>trace := [Tls_read 7, Warn ''tls_read'']\<rparr>)
    \<and> (0::nat) \<noteq> 1
    \<and> pollfds (server_in\<lparr>trace := [Tls_read 7, Warn ''tls_read'']\<rparr>) 0 = pollfds server_in 0
    \<and> clients (server_in\<lparr>trace := [Tls_read 7, Warn ''tls_read'']\<rparr>) 0 = clients server_in 0)"
proof -
  have a: "revents (pollfds server_err 1) AND (POLLERR OR POLLNVAL) \<noteq> 0"
    by (simp add: server_err_slot[unfolded One_nat_def] poll_defs)
  have b: "revents (pollfds server_in 1) AND (POLLERR OR POLLNVAL) = 0"
    by (simp add: server_in_slot[unfolded One_nat_def] poll_defs)
  have c: "(0::nat) \<noteq> 1" by simp
  note t1 = notification_touches_one_slot[of server_err 1 quiet, THEN conjunct1, rule_format, OF a]
  note t2 = notification_touches_one_slot[of server_in 1 failing 1
      "server_in\<lparr>trace := [Tls_read 7, Warn ''tls_read'']\<rparr>" 0, THEN conjunct2, rule_format, OF b]
  show ?thesis
    using a b c t1 t2 handle_failing_read by blast
qed

text \<open>
  Claim C9 as stated fails: a notification reporting \<open>POLLERR\<close> on the connection in
  slot 1 ends the process.
\<close>

theorem bad_fd_exits_counterexample:
  "revents (pollfds server_err 1) = POLLERR
   \<and> handle_client 1 quiet server_err = Inl (Exit 1)"
  by (simp add: handle_client_def server_err_slot[unfolded One_nat_def] poll_defs)

section \<open>Reading a chunk and writing it back\<close>

lemma deliver_fields:
  "clients (deliver i rv s) = clients s"
  "throttle (deliver i rv s) = throttle s"
  "trace (deliver i rv s) = trace s"
  "pollfds (deliver i rv s) i = (pollfds s i)\<lparr>revents := rv\<rparr>"
  by (simp_all add: deliver_def)

lemma pollin_ready:
  "POLLIN AND (POLLERR OR POLLNVAL) = 0" "POLLIN AND POLLHUP = 0"
  "POLLIN AND (POLLIN OR POLLHUP) \<noteq> 0"
  "POLLOUT AND (POLLERR OR POLLNVAL) = 0" "POLLOUT AND POLLHUP = 0"
  "POLLOUT AND (POLLOUT OR POLLHUP) \<noteq> 0"
  "POLLOUT AND (POLLIN OR POLLHUP) = 0"
  "POLLIN \<noteq> 0" "POLLOUT \<noteq> 0"
  by (simp_all add: poll_defs)

lemma read_step:
  assumes st: "state (clients s i) = STATE_READING"
    and ev: "events (pollfds s i) = POLLIN OR POLLHUP"
    and r: "readptr (clients s i) = p" and w: "writeptr (clients s i) = p"
    and room: "p + N < BUFLEN" and pos: "0 < N"
    and ret: "tls_ret e = int N" and len: "N \<le> length (scratch e)"
  shows "\<exists>s'. handle_client i e (deliver i POLLIN s) = Inr s'
     \<and> state (clients s' i) = STATE_WRITING
     \<and> events (pollfds s' i) = POLLOUT OR POLLHUP
     \<and> readptr (clients s' i) = p \<and> writeptr (clients s' i) = p + N
     \<and> fd (pollfds s' i) = fd (pollfds s i)
     \<and> frees (trace s') = frees (trace s)"
proof -
  let ?c = "clients s i"
  have inr: "in_range ?c" using r w room by (simp add: in_range_def)
  have free: "ring_free ?c = BUFLEN - 1"
    by (rule ring_free_empty[OF inr]) (simp add: r w)
  have m: "min N (ring_free ?c) = N" using room free by simp
  have wmod: "(p + N) mod BUFLEN = p + N" using room by simp
  define c' where "c' = ?c\<lparr>buf := ring_store (buf ?c) p (take N (scratch e)), writeptr := p + N\<rparr>"
  have put: "client_put ?c (scratch e) N = Inr (c', N)"
    using client_put_closed[OF inr len] unfolding m w wmod c'_def .
  have notwant: "int N \<noteq> TLS_WANT_POLLIN" "int N \<noteq> TLS_WANT_POLLOUT"
    by (simp_all add: TLS_WANT_POLLIN_def TLS_WANT_POLLOUT_def)
  define s' where "s' = set_events i (POLLOUT OR POLLHUP)
      (set_client i (c'\<lparr>state := STATE_WRITING\<rparr>) (emit (Tls_read (ctx ?c)) (deliver i POLLIN s)))"
  have hr: "handle_reading i e (deliver i POLLIN s) = Inr s'"
    using pos notwant
    by (simp add: handle_reading_def Let_def ret put s'_def emit_def deliver_fields)
  have hc: "handle_client i e (deliver i POLLIN s) = handle_reading i e (deliver i POLLIN s)"
    by (simp add: handle_client_def deliver_fields st ev pollin_ready)
  have "state (clients s' i) = STATE_WRITING" "events (pollfds s' i) = POLLOUT OR POLLHUP"
    "readptr (clients s' i) = p" "writeptr (clients s' i) = p + N"
    "fd (pollfds s' i) = fd (pollfds s i)" "frees (trace s') = frees (trace s)"
    by (simp_all add: s'_def set_events_def set_client_def emit_def deliver_def c'_def r
        frees_append frees_simps)
  then show ?thesis using hc hr by auto
qed

lemma write_step:
  assumes st: "state (clients s i) = STATE_WRITING"
    and ev: "events (pollfds s i) = POLLOUT OR POLLHUP"
    and lt: "readptr (clients s i) < writeptr (clients s i)"
    and wB: "writeptr (clients s i) < BUFLEN"
    and pos: "0 < tls_ret e"
    and le: "tls_ret e \<le> int (writeptr (clients s i) - readptr (clients s i))"
  shows "\<exists>s'. handle_client i e (deliver i POLLOUT s) = Inr s'
     \<and> state (clients s' i) =
         (if tls_ret e = int (writeptr (clients s i) - readptr (clients s i))
          then STATE_READING else STATE_WRITING)
     \<and> events (pollfds s' i) =
         (if tls_ret e = int (writeptr (clients s i) - readptr (clients s i))
          then POLLIN OR POLLHUP else POLLOUT OR POLLHUP)
     \<and> readptr (clients s' i) = readptr (clients s i) + nat (tls_ret e)
     \<and> writeptr (clients s' i) = writeptr (clients s i)
     \<and> fd (pollfds s' i) = fd (pollfds s i)
     \<and> frees (trace s') = frees (trace s)"
proof -
  let ?c = "clients s i"
  let ?r = "readptr ?c" and ?w = "writeptr ?c"
  have inr: "in_range ?c" using lt wB by (simp add: in_range_def)
  have used: "ring_used ?c = ?w - ?r"
    using lt by (simp add: ring_used_cases[OF inr])
  have m: "min BUFLEN (ring_used ?c) = ?w - ?r" using wB used by simp
  have wmod: "(?r + (?w - ?r)) mod BUFLEN = ?w" using lt wB by simp
  have k0: "?w - ?r \<noteq> 0" using lt by simp
  define c' where "c' = ?c\<lparr>nextptr := ?w\<rparr>"
  define out where "out = ring_fetch (buf ?c) ?r (?w - ?r)"
  have get: "client_get ?c BUFLEN = Inr (c', out, ?w - ?r)"
    using client_get_closed[OF inr, of BUFLEN] k0 unfolding m wmod c'_def out_def by simp
  have nle: "nat (tls_ret e) \<le> ?w - ?r" using le by simp
  define c'' where "c'' = c'\<lparr>readptr := ?r + nat (tls_ret e)\<rparr>"
  have cons: "client_consume c' k = (c'\<lparr>readptr := ?r + k\<rparr>, k)" if "k \<le> ?w - ?r" for k
    using lt that by (simp add: client_consume_closed c'_def min_def)
  have notwant: "tls_ret e \<noteq> TLS_WANT_POLLIN" "tls_ret e \<noteq> TLS_WANT_POLLOUT" "\<not> tls_ret e < 0"
    using pos by (simp_all add: TLS_WANT_POLLIN_def TLS_WANT_POLLOUT_def)
  have nr: "STATE_WRITING \<noteq> STATE_READING"
    by (simp add: STATE_READING_def STATE_WRITING_def)
  define s2 where "s2 = set_client i c''
      (emit (Tls_write (ctx c') out) (set_client i c' (deliver i POLLOUT s)))"
  define s' where "s' = (if tls_ret e = int (?w - ?r)
      then set_events i (POLLIN OR POLLHUP) (set_client i (c''\<lparr>state := STATE_READING\<rparr>) s2)
      else s2)"
  have hw: "handle_writing i e (deliver i POLLOUT s) = Inr s'"
    using k0 notwant nle
    by (simp add: handle_writing_def Let_def deliver_fields get cons s'_def s2_def c''_def
        set_client_def emit_def)
  have hc: "handle_client i e (deliver i POLLOUT s) = handle_writing i e (deliver i POLLOUT s)"
    by (simp add: handle_client_def deliver_fields st nr ev pollin_ready)
  have "state (clients s' i) = (if tls_ret e = int (?w - ?r) then STATE_READING else STATE_WRITING)"
    "events (pollfds s' i) =
       (if tls_ret e = int (?w - ?r) then POLLIN OR POLLHUP else POLLOUT OR POLLHUP)"
    "readptr (clients s' i) = ?r + nat (tls_ret e)" "writeptr (clients s' i) = ?w"
    "fd (pollfds s' i) = fd (pollfds s i)" "frees (trace s') = frees (trace s)"
    by (simp_all add: s'_def s2_def set_events_def set_client_def emit_def deliver_def
        c''_def c'_def st ev frees_append frees_simps)
  then show ?thesis using hc hw by auto
qed

lemma pos_sum_zero:
  fixes f :: "'a \<Rightarrow> int"
  assumes "\<forall>x\<in>set xs. 0 < f x" and "sum_list (map f xs) = 0"
  shows "xs = []"
proof (cases xs)
  case Nil
  then show ?thesis .
next
  case (Cons a list)
  have "0 \<le> sum_list (map f list)"
    using assms(1) Cons by (intro sum_list_nonneg) auto
  moreover have "0 < f a" using assms(1) Cons by simp
  ultimately have "0 < sum_list (map f xs)" using Cons by simp
  with assms(2) show ?thesis by simp
qed

lemma run_writes:
  assumes "state (clients s i) = STATE_WRITING"
    and "events (pollfds s i) = POLLOUT OR POLLHUP"
    and "readptr (clients s i) < writeptr (clients s i)"
    and "writeptr (clients s i) < BUFLEN"
    and "\<forall>e\<in>set es. 0 < tls_ret e"
    and "sum_list (map tls_ret es) = int (writeptr (clients s i) - readptr (clients s i))"
  shows "\<exists>s'. run_notifications i (map (Pair POLLOUT) es) s = Inr s'
     \<and> state (clients s' i) = STATE_READING
     \<and> events (pollfds s' i) = POLLIN OR POLLHUP
     \<and> readptr (clients s' i) = writeptr (clients s' i)
     \<and> writeptr (clients s' i) = writeptr (clients s i)
     \<and> fd (pollfds s' i) = fd (pollfds s i)
     \<and> frees (trace s') = frees (trace s)"
  using assms
proof (induction es arbitrary: s)
  case Nil
  then show ?case by simp
next
  case (Cons e es)
  let ?r = "readptr (clients s i)" and ?w = "writeptr (clients s i)"
  have pos: "0 < tls_ret e" and rest_pos: "\<forall>x\<in>set es. 0 < tls_ret x"
    using Cons.prems(5) by simp_all
  have rest_nonneg: "0 \<le> sum_list (map tls_ret es)"
    using rest_pos by (intro sum_list_nonneg) auto
  have total: "tls_ret e + sum_list (map tls_ret es) = int (?w - ?r)"
    using Cons.prems(6) by simp
  have le: "tls_ret e \<le> int (?w - ?r)" using total rest_nonneg by linarith
  from write_step[OF Cons.prems(1-4) pos le] obtain s1 where
    step: "handle_client i e (deliver i POLLOUT s) = Inr s1"
    and st1: "state (clients s1 i) =
         (if tls_ret e = int (?w - ?r) then STATE_READING else STATE_WRITING)"
    and ev1: "events (pollfds s1 i) =
         (if tls_ret e = int (?w - ?r) then POLLIN OR POLLHUP else POLLOUT OR POLLHUP)"
    and r1: "readptr (clients s1 i) = ?r + nat (tls_ret e)"
    and w1: "writeptr (clients s1 i) = ?w"
    and fd1: "fd (pollfds s1 i) = fd (pollfds s i)"
    and fr1: "frees (trace s1) = frees (trace s)"
    by blast
  have unf: "run_notifications i (map (Pair POLLOUT) (e # es)) s =
             run_notifications i (map (Pair POLLOUT) es) s1"
    by (simp add: step)
  show ?case
  proof (cases "tls_ret e = int (?w - ?r)")
    case True
    then have "sum_list (map tls_ret es) = 0" using total by simp
    with rest_pos have "es = []" by (rule pos_sum_zero)
    moreover have "readptr (clients s1 i) = writeptr (clients s1 i)"
      using r1 w1 True Cons.prems(3) by simp
    ultimately show ?thesis
      unfolding unf using st1 ev1 w1 fd1 fr1 True by simp
  next
    case False
    then have lt: "tls_ret e < int (?w - ?r)" using le by simp
    have a: "state (clients s1 i) = STATE_WRITING" using st1 False by simp
    have b: "events (pollfds s1 i) = POLLOUT OR POLLHUP" using ev1 False by simp
    have c: "readptr (clients s1 i) < writeptr (clients s1 i)" using r1 w1 lt pos by linarith
    have d: "writeptr (clients s1 i) < BUFLEN" using w1 Cons.prems(4) by simp
    have f: "sum_list (map tls_ret es) = int (writeptr (clients s1 i) - readptr (clients s1 i))"
      using total r1 w1 pos lt by simp
    from Cons.IH[OF a b c d rest_pos f] show ?thesis
      unfolding unf using w1 fd1 fr1 by auto
  qed
qed

text \<open>
  Claim C7, as the code has it. A connection in state \<open>STATE_READING\<close> whose buffer is
  empty with the read and write cursors at offset \<open>p\<close> receives \<open>N\<close> bytes from one
  channel read, where \<open>0 < N\<close> and \<open>p + N < BUFLEN\<close> (on a connection just accepted
  \<open>p = 0\<close>, so any \<open>N\<close> up to \<open>BUFLEN - 1\<close>). Then every writable notification is
  answered by a channel write that confirms a positive count, the counts summing to
  \<open>N\<close>. The run ends with the buffer empty, the connection in state
  \<open>STATE_READING\<close> asking for readability, its descriptor still in the slot and no
  secure channel freed.
\<close>

theorem echo_of_one_chunk:
  assumes "state (clients s i) = STATE_READING"
    and "events (pollfds s i) = POLLIN OR POLLHUP"
    and "readptr (clients s i) = p" and "writeptr (clients s i) = p"
    and "p + N < BUFLEN" and "0 < N"
    and "tls_ret e0 = int N" and "N \<le> length (scratch e0)"
    and "\<forall>e\<in>set es. 0 < tls_ret e"
    and "sum_list (map tls_ret es) = int N"
  shows "\<exists>s'. run_notifications i ((POLLIN, e0) # map (Pair POLLOUT) es) s = Inr s'
     \<and> state (clients s' i) = STATE_READING
     \<and> readptr (clients s' i) = writeptr (clients s' i)
     \<and> events (pollfds s' i) = POLLIN OR POLLHUP
     \<and> fd (pollfds s' i) = fd (pollfds s i)
     \<and> frees (trace s') = frees (trace s)"
proof -
  from read_step[OF assms(1-8)] obtain s1 where
    step: "handle_client i e0 (deliver i POLLIN s) = Inr s1"
    and a: "state (clients s1 i) = STATE_WRITING"
    and b: "events (pollfds s1 i) = POLLOUT OR POLLHUP"
    and r1: "readptr (clients s1 i) = p" and w1: "writeptr (clients s1 i) = p + N"
    and fd1: "fd (pollfds s1 i) = fd (pollfds s i)"
    and fr1: "frees (trace s1) = frees (trace s)"
    by blast
  have c: "readptr (clients s1 i) < writeptr (clients s1 i)" using r1 w1 assms(6) by simp
  have d: "writeptr (clients s1 i) < BUFLEN" using w1 assms(5) by simp
  have f: "sum_list (map tls_ret es) = int (writeptr (clients s1 i) - readptr (clients s1 i))"
    using assms(10) r1 w1 by simp
  from run_writes[OF a b c d assms(9) f] show ?thesis
    using fd1 fr1 by (auto simp: step)
qed

lemma server1_slot:
  "pollfds server1 1 = \<lparr>fd = 4, events = POLLIN OR POLLHUP, revents = 0\<rparr>"
  "clients server1 1 = fresh"
  "trace server1 = []"
  by (simp_all add: server1_def server0_def free_pfd_def)

lemmas server1_slot_Suc = server1_slot[unfolded One_nat_def]

theorem echo_of_one_chunk_witness:
  "state (clients server1 1) = STATE_READING
   \<and> events (pollfds server1 1) = POLLIN OR POLLHUP
   \<and> readptr (clients server1 1) = 0 \<and> writeptr (clients server1 1) = 0
   \<and> 0 + 5 < BUFLEN \<and> (0::nat) < 5
   \<and> tls_ret hello = int 5 \<and> 5 \<le> length (scratch hello)
   \<and> 0 < tls_ret (sent 2) \<and> 0 < tls_ret (sent 3)
   \<and> sum_list (map tls_ret [sent 2, sent 3]) = int 5
   \<and> (\<exists>s'. run_notifications 1 ((POLLIN, hello) # map (Pair POLLOUT) [sent 2, sent 3]) server1
              = Inr s'
     \<and> state (clients s' 1) = STATE_READING
     \<and> readptr (clients s' 1) = writeptr (clients s' 1)
     \<and> events (pollfds s' 1) = POLLIN OR POLLHUP
     \<and> fd (pollfds s' 1) = fd (pollfds server1 1)
     \<and> frees (trace s') = frees (trace server1))"
proof -
  have a1: "state (clients server1 1) = STATE_READING"
    and a2: "events (pollfds server1 1) = POLLIN OR POLLHUP"
    and a3: "readptr (clients server1 1) = 0" and a4: "writeptr (clients server1 1) = 0"
    by (simp_all add: server1_slot_Suc fresh_fields)
  have a5: "0 + 5 < BUFLEN" and a6: "(0::nat) < 5" by (simp_all add: BUFLEN_def)
  have a7: "tls_ret hello = int 5" and a8: "5 \<le> length (scratch hello)"
    by (simp_all add: hello_def)
  have a9: "\<forall>e\<in>set [sent 2, sent 3]. 0 < tls_ret e" by (simp add: sent_def)
  have a10: "sum_list (map tls_ret [sent 2, sent 3]) = int 5" by (simp add: sent_def)
  have a11: "0 < tls_ret (sent 2)" "0 < tls_ret (sent 3)" by (simp_all add: sent_def)
  show ?thesis
    using a1 a2 a3 a4 a5 a6 a7 a8 a10 a11
      echo_of_one_chunk[OF a1 a2 a3 a4 a5 a6 a7 a8 a9 a10]
    by blast
qed

lemma put_full_chunk:
  "client_put fresh (payload 4096) 4096 =
     Inr (fresh\<lparr>buf := ring_store (buf fresh) 0 (take 4095 (payload 4096)), writeptr := 4095\<rparr>,
          4095)"
proof -
  have "ring_free fresh = BUFLEN - 1"
    by (rule ring_free_empty[OF in_range_fresh]) (simp add: fresh_fields)
  then have m: "min 4096 (ring_free fresh) = 4095" by (simp add: BUFLEN_def)
  show ?thesis
    using client_put_closed[OF in_range_fresh, of 4096 "payload 4096"] unfolding m
    by (simp add: length_payload fresh_fields BUFLEN_def)
qed

lemma run_full_chunk:
  "run_notifications 1 [(POLLIN, full_chunk), (POLLOUT, sent 4096)] server1 =
     Inr (deliver 1 POLLOUT
       (server1\<lparr>pollfds := (pollfds server1)(1 := \<lparr>fd = - 1, events = POLLIN OR POLLHUP, revents = 0\<rparr>),
               clients := (clients server1)
                 (1 := fresh\<lparr>buf := ring_store (buf fresh) 0 (take 4095 (payload 4096)),
                            writeptr := 4095\<rparr>),
               throttle := 0,
               trace := [Tls_read 7, Warn ''client buffer failed'', Tls_close 7, Tls_free 7,
                         Close 4]\<rparr>))"
proof -
  define s1 where "s1 = server1\<lparr>pollfds := (pollfds server1)(1 := \<lparr>fd = - 1, events = POLLIN OR POLLHUP, revents = 0\<rparr>),
               clients := (clients server1)
                 (1 := fresh\<lparr>buf := ring_store (buf fresh) 0 (take 4095 (payload 4096)),
                            writeptr := 4095\<rparr>),
               throttle := 0,
               trace := [Tls_read 7, Warn ''client buffer failed'', Tls_close 7, Tls_free 7,
                         Close 4]\<rparr>"
  have hr: "handle_reading 1 full_chunk (deliver 1 POLLIN server1) = Inr s1"
    by (simp add: handle_reading_def Let_def full_chunk_def deliver_fields[unfolded One_nat_def]
        server1_slot_Suc put_full_chunk emit_def set_client_def closeconn_def s1_def
        TLS_WANT_POLLIN_def TLS_WANT_POLLOUT_def fresh_fields deliver_def)
  have hc: "handle_client 1 full_chunk (deliver 1 POLLIN server1) = Inr s1"
    unfolding hr[symmetric]
    by (simp add: handle_client_def deliver_fields[unfolded One_nat_def] server1_slot_Suc
        fresh_fields pollin_ready)
  have h2: "handle_client 1 (sent 4096) (deliver 1 POLLOUT s1) = Inr (deliver 1 POLLOUT s1)"
    by (simp add: handle_client_def deliver_fields[unfolded One_nat_def] s1_def pollin_ready)
  show ?thesis
    unfolding s1_def[symmetric]
    by (simp add: hc[unfolded One_nat_def] h2[unfolded One_nat_def])
qed

text \<open>
  Claim C7 as stated fails for \<open>N\<close> equal to the capacity: the connection of
  \<open>server1\<close> is in state \<open>STATE_READING\<close> with an empty buffer and receives 4096
  bytes from one channel read; \<open>client_put\<close> takes 4095 of them and the connection is
  closed (its slot is free, its secure channel was freed), with 4095 bytes left in the
  buffer.
\<close>

theorem full_chunk_closes_counterexample:
  "slot_state 1 server1 = STATE_READING
   \<and> readptr (clients server1 1) = writeptr (clients server1 1)
   \<and> tls_ret full_chunk = int BUFLEN
   \<and> tls_ret (sent 4096) = int BUFLEN
   \<and> slot_fd 1 server1 = 4
   \<and> map_sum id (slot_fd 1)
        (run_notifications 1 [(POLLIN, full_chunk), (POLLOUT, sent 4096)] server1) = Inr (- 1)
   \<and> map_sum id (frees \<circ> trace)
        (run_notifications 1 [(POLLIN, full_chunk), (POLLOUT, sent 4096)] server1) = Inr 1
   \<and> map_sum id (ring_used \<circ> clients_at 1)
        (run_notifications 1 [(POLLIN, full_chunk), (POLLOUT, sent 4096)] server1) = Inr 4095"
proof -
  have a: "slot_state 1 server1 = STATE_READING"
    "readptr (clients server1 1) = writeptr (clients server1 1)"
    "slot_fd 1 server1 = 4"
    by (simp_all add: slot_state_def slot_fd_def server1_slot_Suc fresh_fields)
  have b: "tls_ret full_chunk = int BUFLEN" "tls_ret (sent 4096) = int BUFLEN"
    by (simp_all add: full_chunk_def sent_def BUFLEN_def)
  have c: "map_sum id (slot_fd 1)
        (run_notifications 1 [(POLLIN, full_chunk), (POLLOUT, sent 4096)] server1) = Inr (- 1)"
    unfolding run_full_chunk by (simp add: slot_fd_def deliver_def)
  have d: "map_sum id (frees \<circ> trace)
        (run_notifications 1 [(POLLIN, full_chunk), (POLLOUT, sent 4096)] server1) = Inr 1"
    unfolding run_full_chunk by (simp add: deliver_def frees_simps)
  have e: "map_sum id (ring_used \<circ> clients_at 1)
        (run_notifications 1 [(POLLIN, full_chunk), (POLLOUT, sent 4096)] server1) = Inr 4095"
    unfolding run_full_chunk
    by (simp add: deliver_def clients_at_def ring_used_def ring_dist_def fresh_fields BUFLEN_def)
  show ?thesis
    using a b c d e by simp
qed

section \<open>Accepting and the throttle\<close>

lemma accept_scan_find:
  "0 \<le> newfd \<Longrightarrow> i \<le> MAX_CONNECTIONS \<Longrightarrow>
   accept_scan e newfd i s =
     (case find (\<lambda>k. fd (pollfds s k) = - 1) [i..<MAX_CONNECTIONS] of
        None \<Rightarrow> Inr s
      | Some k \<Rightarrow> claim_slot e newfd k s)"
proof (induction e newfd i s rule: accept_scan.induct)
  case (1 e newfd i s)
  show ?case
  proof (cases "i < MAX_CONNECTIONS")
    case False
    then show ?thesis
      by (subst accept_scan.simps) simp
  next
    case True
    then have upt: "[i..<MAX_CONNECTIONS] = i # [i + 1..<MAX_CONNECTIONS]"
      by (simp add: upt_conv_Cons)
    show ?thesis
    proof (cases "fd (pollfds s i) = - 1")
      case free: True
      then show ?thesis
        using True "1.prems" by (subst accept_scan.simps) (simp add: upt)
    next
      case busy: False
      have "accept_scan e newfd i s = accept_scan e newfd (i + 1) s"
        using True busy "1.prems" by (subst accept_scan.simps) simp
      also have "\<dots> = (case find (\<lambda>k. fd (pollfds s k) = - 1) [i + 1..<MAX_CONNECTIONS] of
                          None \<Rightarrow> Inr s | Some k \<Rightarrow> claim_slot e newfd k s)"
        using True busy "1.prems" by (intro "1.IH") auto
      finally show ?thesis using busy by (simp add: upt)
    qed
  qed
qed

lemma accept_scan_refused: "newfd < 0 \<Longrightarrow> accept_scan e newfd i s = Inr s"
  by (subst accept_scan.simps) simp

lemma first_free_emit: "first_free ((emit x s)\<lparr>throttle := t\<rparr>) = first_free s"
  by (simp add: first_free_def emit_def)

lemma accept_event_found:
  assumes "revents (pollfds s 0) \<noteq> 0" and "0 \<le> accept_fd e" and "first_free s = Some k"
  shows "accept_event e s = claim_slot e (accept_fd e) k ((emit Accept s)\<lparr>throttle := 1\<rparr>)"
  using assms accept_scan_find[of "accept_fd e" 1 e "(emit Accept s)\<lparr>throttle := 1\<rparr>"]
    first_free_emit[where x = Accept and s = s and t = 1]
  by (simp add: accept_event_def first_free_def MAX_CONNECTIONS_def)

lemma accept_event_none:
  assumes "revents (pollfds s 0) \<noteq> 0" and "0 \<le> accept_fd e" and "first_free s = None"
  shows "accept_event e s = Inr ((emit Accept s)\<lparr>throttle := 1\<rparr>)"
  using assms accept_scan_find[of "accept_fd e" 1 e "(emit Accept s)\<lparr>throttle := 1\<rparr>"]
    first_free_emit[where x = Accept and s = s and t = 1]
  by (simp add: accept_event_def first_free_def MAX_CONNECTIONS_def)

lemma first_free_Some:
  "first_free s = Some k \<Longrightarrow> 1 \<le> k \<and> k < MAX_CONNECTIONS \<and> fd (pollfds s k) = - 1"
  by (auto simp: first_free_def find_Some_iff)

lemma first_free_None:
  "first_free s = None \<longleftrightarrow> (\<forall>k. 1 \<le> k \<and> k < MAX_CONNECTIONS \<longrightarrow> fd (pollfds s k) \<noteq> - 1)"
  by (auto simp: first_free_def find_None_iff)

lemma closeconn_closes:
  "closeconn i e s = Inr s' \<Longrightarrow>
   throttle s' = 0 \<and> fd (pollfds s' i) = - 1 \<and> frees (trace s') = Suc (frees (trace s))"
  using closeconn_Inr(3,4,6)[of i e s s'] by simp

lemma handle_reading_throttle:
  "handle_reading i c s = Inr s' \<Longrightarrow>
   throttle s' = throttle s
   \<or> (throttle s' = 0 \<and> fd (pollfds s' i) = - 1 \<and> frees (trace s') = Suc (frees (trace s)))"
  by (auto simp: handle_reading_def Let_def emit_def set_events_def set_client_def
      frees_append frees_simps
      split: if_splits sum.splits prod.splits dest!: closeconn_closes)

lemma handle_writing_throttle:
  "handle_writing i c s = Inr s' \<Longrightarrow> throttle s' = throttle s"
  by (auto simp: handle_writing_def Let_def emit_def set_events_def set_client_def
      split: if_splits sum.splits prod.splits)

lemma handle_client_throttle:
  assumes "handle_client i c s = Inr s'" and "throttle s' \<noteq> throttle s"
  shows "throttle s' = 0 \<and> fd (pollfds s' i) = - 1 \<and> frees (trace s') = Suc (frees (trace s))"
  using assms
  by (auto simp: handle_client_def split: if_splits
      dest: closeconn_closes handle_reading_throttle handle_writing_throttle)

text \<open>
  Claim C5, as the code has it. After an accept event in which \<open>accept\<close> returned a
  descriptor (and \<open>fcntl\<close> does not fail): the throttle is clear afterwards if and
  only if a free slot was found, whether or not the handshake succeeded. When no slot
  is free the throttle is set afterwards and the slot table is unchanged. When a slot
  is free and the handshake fails, the accepted descriptor is closed, no slot is
  claimed and the throttle is clear. When a slot is free and the handshake succeeds,
  the first free slot holds the accepted descriptor and a client set up by
  \<open>client_init\<close>. Whenever \<open>closeconn\<close> returns, the throttle is clear, and a
  call of \<open>handle_client\<close> that returns changes the throttle only by closing its
  connection.
\<close>

theorem throttle_after_accept:
  assumes "revents (pollfds s 0) \<noteq> 0" and "0 \<le> accept_fd e"
    and "0 \<le> getfl_ret e" and "0 \<le> setfl_ret e"
  shows "\<exists>s'. accept_event e s = Inr s'
     \<and> (throttle s' = 0 \<longleftrightarrow> first_free s \<noteq> None)
     \<and> (first_free s = None \<longrightarrow>
          throttle s' = 1 \<and> pollfds s' = pollfds s \<and> clients s' = clients s)
     \<and> (first_free s \<noteq> None \<longrightarrow> tls_accept_ret e = - 1 \<longrightarrow>
          pollfds s' = pollfds s \<and> clients s' = clients s
          \<and> trace s' = trace s @ [Accept, Tls_accept_socket (accept_fd e),
                                   Warn ''tls accept failed'', Close (accept_fd e)])
     \<and> (first_free s = Some k \<longrightarrow> tls_accept_ret e \<noteq> - 1 \<longrightarrow>
          pollfds s' k = \<lparr>fd = accept_fd e, events = POLLIN OR POLLHUP, revents = 0\<rparr>
          \<and> clients s' k = client_init (clients s k) (tls_cctx e))
     \<and> (closeconn i c t = Inr t' \<longrightarrow> throttle t' = 0)
     \<and> (handle_client i c t = Inr t' \<longrightarrow> throttle t' \<noteq> throttle t \<longrightarrow>
          throttle t' = 0 \<and> fd (pollfds t' i) = - 1)"
proof -
  have closing: "closeconn i c t = Inr t' \<longrightarrow> throttle t' = 0"
    by (auto dest: closeconn_closes)
  have only_closing: "handle_client i c t = Inr t' \<longrightarrow> throttle t' \<noteq> throttle t \<longrightarrow>
          throttle t' = 0 \<and> fd (pollfds t' i) = - 1"
    by (auto dest: handle_client_throttle)
  show ?thesis
  proof (cases "first_free s")
    case None
    have "accept_event e s = Inr ((emit Accept s)\<lparr>throttle := 1\<rparr>)"
      by (rule accept_event_none[OF assms(1,2) None])
    then show ?thesis
      using None closing only_closing by (simp add: emit_def)
  next
    case (Some k0)
    have ev: "accept_event e s = claim_slot e (accept_fd e) k0 ((emit Accept s)\<lparr>throttle := 1\<rparr>)"
      by (rule accept_event_found[OF assms(1,2) Some])
    show ?thesis
    proof (cases "tls_accept_ret e = - 1")
      case True
      then show ?thesis
        using Some ev closing only_closing
        by (simp add: claim_slot_def Let_def emit_def)
    next
      case False
      then show ?thesis
        using Some ev assms(3,4) closing only_closing
        by (simp add: claim_slot_def Let_def emit_def newconn_def set_client_def)
    qed
  qed
qed

lemma handle_hup: "handle_client 1 quiet server_hup = Inr server_closed"
proof -
  have p: "pollfds server_hup 1 = \<lparr>fd = 4, events = POLLIN OR POLLHUP, revents = POLLHUP\<rparr>"
    and c: "clients server_hup 1 = fresh"
    by (simp_all add: server_hup_def server_throttled_def server_listen_def deliver_def emit_def
        server1_def server0_def free_pfd_def)
  have "closeconn 1 quiet server_hup = Inr server_closed"
    by (simp add: closeconn_def quiet_def TLS_WANT_POLLIN_def TLS_WANT_POLLOUT_def
        server_closed_def p[unfolded One_nat_def] c[unfolded One_nat_def] fresh_fields)
  then show ?thesis
    by (simp add: handle_client_def p[unfolded One_nat_def] poll_defs)
qed

lemma first_free_server_listen: "first_free server_listen = Some 2"
proof -
  have l: "[1..<MAX_CONNECTIONS] = 1 # 2 # [3..<MAX_CONNECTIONS]"
    by (simp add: MAX_CONNECTIONS_def upt_conv_Cons)
  have "fd (pollfds server_listen 1) = 4" "fd (pollfds server_listen 2) = - 1"
    by (simp_all add: server_listen_def deliver_def server1_def server0_def free_pfd_def)
  then show ?thesis
    unfolding first_free_def l by simp
qed

lemma first_free_server_full: "first_free server_full = None"
  unfolding first_free_None by (simp add: server_full_def)

lemma listen_ready:
  "revents (pollfds server_listen 0) \<noteq> 0" "revents (pollfds server_full 0) \<noteq> 0"
  by (simp_all add: server_listen_def server_full_def deliver_def poll_defs)

theorem throttle_after_accept_witness:
  "(revents (pollfds server_listen 0) \<noteq> 0 \<and> 0 \<le> accept_fd handshake_fails
     \<and> 0 \<le> getfl_ret handshake_fails \<and> 0 \<le> setfl_ret handshake_fails
     \<and> first_free server_listen \<noteq> None \<and> tls_accept_ret handshake_fails = - 1
     \<and> (\<exists>s'. accept_event handshake_fails server_listen = Inr s' \<and> throttle s' = 0
           \<and> pollfds s' = pollfds server_listen \<and> clients s' = clients server_listen
           \<and> trace s' = trace server_listen @ [Accept, Tls_accept_socket (accept_fd handshake_fails),
                  Warn ''tls accept failed'', Close (accept_fd handshake_fails)]))
   \<and> (revents (pollfds server_listen 0) \<noteq> 0 \<and> 0 \<le> accept_fd accepted
     \<and> 0 \<le> getfl_ret accepted \<and> 0 \<le> setfl_ret accepted
     \<and> first_free server_listen = Some 2 \<and> tls_accept_ret accepted \<noteq> - 1
     \<and> (\<exists>s'. accept_event accepted server_listen = Inr s' \<and> throttle s' = 0
           \<and> pollfds s' 2 = \<lparr>fd = accept_fd accepted, events = POLLIN OR POLLHUP, revents = 0\<rparr>
           \<and> clients s' 2 = client_init (clients server_listen 2) (tls_cctx accepted)))
   \<and> (revents (pollfds server_full 0) \<noteq> 0 \<and> 0 \<le> accept_fd accepted
     \<and> first_free server_full = None
     \<and> (\<exists>s'. accept_event accepted server_full = Inr s' \<and> throttle s' = 1
           \<and> pollfds s' = pollfds server_full \<and> clients s' = clients server_full))
   \<and> (handle_client 1 quiet server_hup = Inr server_closed
     \<and> throttle server_closed \<noteq> throttle server_hup
     \<and> throttle server_closed = 0 \<and> fd (pollfds server_closed 1) = - 1)"
proof -
  have h: "0 \<le> accept_fd handshake_fails" "0 \<le> getfl_ret handshake_fails"
    "0 \<le> setfl_ret handshake_fails" "tls_accept_ret handshake_fails = - 1"
    by (simp_all add: handshake_fails_def accepted_def)
  have a: "0 \<le> accept_fd accepted" "0 \<le> getfl_ret accepted" "0 \<le> setfl_ret accepted"
    "tls_accept_ret accepted \<noteq> - 1"
    by (simp_all add: accepted_def)
  have ff: "first_free server_listen \<noteq> None" by (simp add: first_free_server_listen)
  have d: "throttle server_closed \<noteq> throttle server_hup"
    by (simp add: server_closed_def server_hup_def deliver_def server_throttled_def)
  note t1 = throttle_after_accept[OF listen_ready(1) h(1,2,3),
      where k = 2 and i = 1 and c = quiet and t = server_hup and t' = server_closed]
  note t2 = throttle_after_accept[OF listen_ready(1) a(1,2,3),
      where k = 2 and i = 1 and c = quiet and t = server_hup and t' = server_closed]
  note t3 = throttle_after_accept[OF listen_ready(2) a(1,2,3),
      where k = 2 and i = 1 and c = quiet and t = server_hup and t' = server_closed]
  have p1: "\<exists>s'. accept_event handshake_fails server_listen = Inr s' \<and> throttle s' = 0
           \<and> pollfds s' = pollfds server_listen \<and> clients s' = clients server_listen
           \<and> trace s' = trace server_listen @ [Accept, Tls_accept_socket (accept_fd handshake_fails),
                  Warn ''tls accept failed'', Close (accept_fd handshake_fails)]"
    using t1 ff h(4) by blast
  have p2: "\<exists>s'. accept_event accepted server_listen = Inr s' \<and> throttle s' = 0
           \<and> pollfds s' 2 = \<lparr>fd = accept_fd accepted, events = POLLIN OR POLLHUP, revents = 0\<rparr>
           \<and> clients s' 2 = client_init (clients server_listen 2) (tls_cctx accepted)"
    using t2 ff first_free_server_listen a(4) by blast
  have p3: "\<exists>s'. accept_event accepted server_full = Inr s' \<and> throttle s' = 1
           \<and> pollfds s' = pollfds server_full \<and> clients s' = clients server_full"
    using t3 first_free_server_full by blast
  have p4: "throttle server_closed = 0 \<and> fd (pollfds server_closed 1) = - 1"
    using t1 handle_hup d by blast
  show ?thesis
    using listen_ready h a ff first_free_server_listen first_free_server_full p1 p2 p3 p4
      handle_hup d
    by blast
qed

text \<open>
  Claim C5 as stated fails: a slot is free and the handshake fails, yet the throttle is
  clear afterwards.
\<close>

theorem throttle_clear_after_failed_handshake_counterexample:
  "revents (pollfds server_listen 0) = POLLIN
   \<and> accept_fd handshake_fails = 9
   \<and> first_free server_listen = Some 2
   \<and> tls_accept_ret handshake_fails = - 1
   \<and> map_sum id throttle (accept_event handshake_fails server_listen) = Inr 0"
proof -
  have r: "revents (pollfds server_listen 0) = POLLIN"
    by (simp add: server_listen_def deliver_def)
  have h: "accept_fd handshake_fails = 9" "tls_accept_ret handshake_fails = - 1"
    by (simp_all add: handshake_fails_def accepted_def)
  have "accept_event handshake_fails server_listen =
          claim_slot handshake_fails (accept_fd handshake_fails) 2
            ((emit Accept server_listen)\<lparr>throttle := 1\<rparr>)"
    by (rule accept_event_found[OF listen_ready(1) _ first_free_server_listen]) (simp add: h)
  then have "map_sum id throttle (accept_event handshake_fails server_listen) = Inr 0"
    by (simp add: claim_slot_def Let_def emit_def h)
  then show ?thesis
    using r h first_free_server_listen by simp
qed

text \<open>
  Claim C10. When the listening slot reported something and \<open>accept\<close> returns a
  negative descriptor, the accept event sets the throttle and does nothing else: the
  slot scan is skipped, whether or not a slot is free. While the throttle is set the
  dispatcher asks nothing of the listening socket before \<open>poll\<close>, and while the
  listening slot reports nothing the accept event does nothing. A call of
  \<open>handle_client\<close> that returns changes the throttle only by closing its connection,
  which clears it.
\<close>

theorem failed_accept_keeps_throttle_set:
  "(revents (pollfds s 0) \<noteq> 0 \<longrightarrow> accept_fd e < 0 \<longrightarrow>
      accept_event e s = Inr ((emit Accept s)\<lparr>throttle := 1\<rparr>))
   \<and> (throttle s \<noteq> 0 \<longrightarrow> events (pollfds (listen_interest s) 0) = 0)
   \<and> (revents (pollfds s 0) = 0 \<longrightarrow> accept_event e s = Inr s)
   \<and> (handle_client i c s = Inr s' \<longrightarrow> throttle s' \<noteq> throttle s \<longrightarrow>
        throttle s' = 0 \<and> fd (pollfds s' i) = - 1
        \<and> frees (trace s') = Suc (frees (trace s)))"
proof (intro conjI impI)
  assume "revents (pollfds s 0) \<noteq> 0" and "accept_fd e < 0"
  then show "accept_event e s = Inr ((emit Accept s)\<lparr>throttle := 1\<rparr>)"
    by (simp add: accept_event_def accept_scan_refused)
next
  assume "throttle s \<noteq> 0"
  then show "events (pollfds (listen_interest s) 0) = 0"
    by (simp add: listen_interest_def set_events_def)
next
  assume "revents (pollfds s 0) = 0"
  then show "accept_event e s = Inr s"
    by (simp add: accept_event_def)
next
  assume h: "handle_client i c s = Inr s'" "throttle s' \<noteq> throttle s"
  from handle_client_throttle[OF h]
  show "throttle s' = 0" "fd (pollfds s' i) = - 1" "frees (trace s') = Suc (frees (trace s))"
    by simp_all
qed

theorem failed_accept_keeps_throttle_set_witness:
  "(revents (pollfds server_listen 0) \<noteq> 0 \<and> accept_fd accept_fails < 0
     \<and> first_free server_listen = Some 2
     \<and> accept_event accept_fails server_listen = Inr server_throttled
     \<and> throttle server_throttled = 1)
   \<and> (throttle server_throttled \<noteq> 0
     \<and> events (pollfds (listen_interest server_throttled) 0) = 0)
   \<and> (revents (pollfds server1 0) = 0 \<and> accept_event accepted server1 = Inr server1)
   \<and> (handle_client 1 quiet server_hup = Inr server_closed
     \<and> throttle server_closed \<noteq> throttle server_hup
     \<and> throttle server_closed = 0 \<and> fd (pollfds server_closed 1) = - 1
     \<and> frees (trace server_closed) = Suc (frees (trace server_hup)))"
proof -
  have a: "accept_fd accept_fails < 0" by (simp add: accept_fails_def)
  have t: "throttle server_throttled = 1" "throttle server_throttled \<noteq> 0"
    by (simp_all add: server_throttled_def)
  have d: "throttle server_closed \<noteq> throttle server_hup"
    by (simp add: server_closed_def server_hup_def deliver_def server_throttled_def)
  have q: "revents (pollfds server1 0) = 0"
    by (simp add: server1_def server0_def free_pfd_def)
  note r1 = failed_accept_keeps_throttle_set[where s = server_listen and e = accept_fails,
      THEN conjunct1, rule_format, OF listen_ready(1) a, unfolded server_throttled_def[symmetric]]
  note r2 = failed_accept_keeps_throttle_set[where s = server_throttled,
      THEN conjunct2, THEN conjunct1, rule_format, OF t(2)]
  note r3 = failed_accept_keeps_throttle_set[where s = server1 and e = accepted,
      THEN conjunct2, THEN conjunct2, THEN conjunct1, rule_format, OF q]
  note r4 = failed_accept_keeps_throttle_set[where s = server_hup and i = 1 and c = quiet
        and s' = server_closed,
      THEN conjunct2, THEN conjunct2, THEN conjunct2, rule_format, OF handle_hup d]
  show ?thesis
    using listen_ready(1) a first_free_server_listen t d q handle_hup r1 r2 r3 r4 by blast
qed

end
